theory Spec2Isabelle
  imports Complex_Main "HOL-Library.Product_Lexorder" "HOL-Library.AList"
begin

section \<open>Edge search of PLgpt-circuits: data model\<close>

text \<open>
  The development embeds \<^verbatim>\<open>src/circuits/search/edges.py\<close> (class \<^verbatim>\<open>EdgeSearch\<close>).

  Conventions of the embedding:
  \<^item> Python \<^verbatim>\<open>int\<close> is \<open>int\<close>; Python and torch floats are exact \<open>real\<close>s, so rounding,
    infinities and nan are outside the model (where torch would produce nan from finite
    data, the mean of an empty tensor, the model stops with \<open>NotANumber\<close>).
  \<^item> A \<^verbatim>\<open>set\<close>/\<^verbatim>\<open>frozenset\<close> that the code iterates is a list without duplicates, in
    iteration order; a set built by the code is in insertion order. CPython's real
    iteration order depends on hashes; no theorem below relies on the chosen order
    unless it says so.
  \<^item> A \<^verbatim>\<open>frozenset\<close> that the code only uses as a dictionary key or hands to a
    collaborator (a dependency set) is a HOL \<open>set\<close>.
  \<^item> A \<^verbatim>\<open>dict\<close> is an association list in insertion order: \<open>map_of\<close> reads it,
    \<open>AList.update\<close> is \<^verbatim>\<open>d[k] = v\<close>.
  \<^item> Every raise is a value \<open>Inl e\<close> of \<open>error + 'a\<close>.
  \<^item> The resampling ablator is stochastic: it is a function of an explicit state \<open>'s\<close>
    that every sampling call reads and returns updated.
  \<^item> \<^verbatim>\<open>print\<close> calls, and the minimum statistics that are only printed, are left out.
\<close>

datatype error =
    AssertionError | StopIteration | KeyError | IndexError | ZeroDivisionError
  | ExternalError | NotANumber

text \<open>
  Modelled from the spec: the classes \<^verbatim>\<open>Node\<close>, \<^verbatim>\<open>Edge\<close>, \<^verbatim>\<open>EdgeGroup\<close> and \<^verbatim>\<open>Circuit\<close> are
  imported from the package \<^verbatim>\<open>circuits\<close>, whose source is not part of the files at hand.
  A node is a (layer, token position, feature index) triple, ordered by its three
  fields; an edge is an ordered pair of nodes; an edge group is the key
  (upstream layer, upstream token, downstream token); a circuit is a set of nodes and,
  optionally, a set of edges, and two circuits are equal iff these are.
\<close>

datatype Node = Node (layer_idx: int) (token_idx: int) (feature_idx: int)

datatype Edge = Edge (upstream: Node) (downstream: Node)

datatype EdgeGroup =
  EdgeGroup (upstream_layer_idx: int) (upstream_token_idx: int) (downstream_token_idx: int)

datatype Circuit = Circuit (nodes: "Node set") (edges: "Edge list")

text \<open>The sort keys behind \<^verbatim>\<open>sorted(nodes)\<close> and \<^verbatim>\<open>sorted(items, key=lambda x: x[0])\<close>.\<close>

definition node_key :: "Node \<Rightarrow> int \<times> int \<times> int" where
  "node_key n = (layer_idx n, token_idx n, feature_idx n)"

definition edge_key :: "Edge \<Rightarrow> (int \<times> int \<times> int) \<times> (int \<times> int \<times> int)" where
  "edge_key e = (node_key (upstream e), node_key (downstream e))"

definition sorted_nodes :: "Node list \<Rightarrow> Node list" where
  "sorted_nodes ns = sort_key node_key ns"

record EdgeSearchResult =
  edge_importance :: "(Edge \<times> real) list"
  token_importance :: "(EdgeGroup \<times> real) list"

subsection \<open>Python sets and dictionaries\<close>

definition set_add :: "'a list \<Rightarrow> 'a \<Rightarrow> 'a list" where
  "set_add xs x = (if x \<in> set xs then xs else xs @ [x])"

text \<open>A set comprehension \<^verbatim>\<open>{f(x) for x in xs}\<close>: the elements in order of first insertion.\<close>

definition py_set :: "'a list \<Rightarrow> 'a list" where
  "py_set xs = fold (\<lambda>x acc. set_add acc x) xs []"

definition dict_get :: "('k \<times> 'v) list \<Rightarrow> 'k \<Rightarrow> error + 'v" where
  "dict_get d k = (case map_of d k of None \<Rightarrow> Inl KeyError | Some v \<Rightarrow> Inr v)"

section \<open>Candidate edges and placeholders\<close>

text \<open>
  The double loop of \<^verbatim>\<open>search\<close> (lines 78-82) and of \<^verbatim>\<open>get_placeholders\<close> (lines 135-139):
  \<^verbatim>\<open>
  for upstream in sorted(upstream_nodes):
      for downstream in sorted(downstream_nodes):
          if upstream.token_idx <= downstream.token_idx:
              all_edges.add(Edge(upstream, downstream))
  \<close>
\<close>

definition add_edges_from :: "Node list \<Rightarrow> Node \<Rightarrow> Edge list \<Rightarrow> Edge list" where
  "add_edges_from downstream_nodes u acc =
     fold (\<lambda>d acc. if token_idx u \<le> token_idx d then set_add acc (Edge u d) else acc)
       (sorted_nodes downstream_nodes) acc"

definition find_all_edges :: "Node list \<Rightarrow> Node list \<Rightarrow> Edge list" where
  "find_all_edges upstream_nodes downstream_nodes =
     fold (add_edges_from downstream_nodes) (sorted_nodes upstream_nodes) []"

text \<open>
  \<^verbatim>\<open>
  upstream_blocks = {(node.layer_idx, node.token_idx) for node in upstream_nodes}
  for upstream_layer_idx, upstream_token_idx in upstream_blocks:
      downstream_token_idxs = {n.token_idx for n in downstream_nodes
                               if n.token_idx >= upstream_token_idx}
      for downstream_token_idx in downstream_token_idxs:
          edge_groups.add(EdgeGroup(upstream_layer_idx, upstream_token_idx, downstream_token_idx))
  \<close>
\<close>

definition add_groups_from :: "Node list \<Rightarrow> int \<times> int \<Rightarrow> EdgeGroup list \<Rightarrow> EdgeGroup list" where
  "add_groups_from downstream_nodes blk acc =
     (case blk of (u_layer_idx, u_token_idx) \<Rightarrow>
        fold (\<lambda>d_token_idx acc. set_add acc (EdgeGroup u_layer_idx u_token_idx d_token_idx))
          (py_set (map token_idx (filter (\<lambda>n. token_idx n \<ge> u_token_idx) downstream_nodes)))
          acc)"

definition find_all_edge_groups :: "Node list \<Rightarrow> Node list \<Rightarrow> EdgeGroup list" where
  "find_all_edge_groups upstream_nodes downstream_nodes =
     fold (add_groups_from downstream_nodes)
       (py_set (map (\<lambda>node. (layer_idx node, token_idx node)) upstream_nodes)) []"

definition get_placeholders :: "Node list \<Rightarrow> Node list \<Rightarrow> EdgeSearchResult" where
  "get_placeholders upstream_nodes downstream_nodes =
     \<lparr> edge_importance = map (\<lambda>edge. (edge, 1)) (find_all_edges upstream_nodes downstream_nodes),
       token_importance =
         map (\<lambda>edge_group. (edge_group, 0)) (find_all_edge_groups upstream_nodes downstream_nodes) \<rparr>"

text \<open>The causal enumeration the spec speaks of, as sets.\<close>

definition causal_edges :: "Node set \<Rightarrow> Node set \<Rightarrow> Edge set" where
  "causal_edges U D =
     (\<lambda>(u, d). Edge u d) ` {(u, d) \<in> U \<times> D. token_idx u \<le> token_idx d}"

definition group_of :: "Edge \<Rightarrow> EdgeGroup" where
  "group_of e =
     EdgeGroup (layer_idx (upstream e)) (token_idx (upstream e)) (token_idx (downstream e))"

section \<open>Errors, state and numeric helpers\<close>

definition bindR :: "error + 'a \<Rightarrow> ('a \<Rightarrow> error + 'b) \<Rightarrow> error + 'b" where
  "bindR r f = (case r of Inl e \<Rightarrow> Inl e | Inr x \<Rightarrow> f x)"

fun mapE :: "('a \<Rightarrow> error + 'b) \<Rightarrow> 'a list \<Rightarrow> error + 'b list" where
  "mapE f [] = Inr []"
| "mapE f (x # xs) = bindR (f x) (\<lambda>y. bindR (mapE f xs) (\<lambda>ys. Inr (y # ys)))"

text \<open>A \<^verbatim>\<open>for\<close> loop that updates an accumulator and stops at the first raise.\<close>

fun foldE :: "('a \<Rightarrow> 'b \<Rightarrow> error + 'b) \<Rightarrow> 'a list \<Rightarrow> 'b \<Rightarrow> error + 'b" where
  "foldE f [] acc = Inr acc"
| "foldE f (x # xs) acc = bindR (f x acc) (foldE f xs)"

text \<open>Computations that sample: they read the ablator's state and return it updated.\<close>

definition bindS ::
  "('s \<Rightarrow> (error + 'a) \<times> 's) \<Rightarrow> ('a \<Rightarrow> 's \<Rightarrow> (error + 'b) \<times> 's) \<Rightarrow> 's \<Rightarrow> (error + 'b) \<times> 's" where
  "bindS m f s = (case m s of (Inl e, s') \<Rightarrow> (Inl e, s') | (Inr x, s') \<Rightarrow> f x s')"

definition liftS :: "error + 'a \<Rightarrow> 's \<Rightarrow> (error + 'a) \<times> 's" where
  "liftS r s = (r, s)"

fun foldS ::
  "('a \<Rightarrow> 'b \<Rightarrow> 's \<Rightarrow> (error + 'b) \<times> 's) \<Rightarrow> 'a list \<Rightarrow> 'b \<Rightarrow> 's \<Rightarrow> (error + 'b) \<times> 's" where
  "foldS f [] acc s = (Inr acc, s)"
| "foldS f (x # xs) acc s = bindS (f x acc) (foldS f xs) s"

text \<open>\<^verbatim>\<open>next(iter(xs))\<close>.\<close>

definition next_iter :: "'a list \<Rightarrow> error + 'a" where
  "next_iter xs = (case xs of [] \<Rightarrow> Inl StopIteration | x # _ \<Rightarrow> Inr x)"

text \<open>Indexing a sequence with a Python integer: a negative index counts from the end.\<close>

definition py_index :: "'a list \<Rightarrow> int \<Rightarrow> error + 'a" where
  "py_index xs i =
     (if 0 \<le> i \<and> i < int (length xs) then Inr (xs ! nat i)
      else if i < 0 \<and> - int (length xs) \<le> i then Inr (xs ! nat (int (length xs) + i))
      else Inl IndexError)"

text \<open>
  A tensor of shape (num_samples, T, F) is the list of its samples, each a list of T rows
  of F magnitudes; \<^verbatim>\<open>magnitudes[:, t, f]\<close> reads entry (t, f) of every sample.
\<close>

type_synonym tensor = "real list list list"

definition tensor_slice :: "tensor \<Rightarrow> int \<Rightarrow> int \<Rightarrow> error + real list" where
  "tensor_slice magnitudes t f =
     mapE (\<lambda>sample. bindR (py_index sample t) (\<lambda>row. py_index row f)) magnitudes"

text \<open>\<^verbatim>\<open>torch.mean(xs).item()\<close>: nan on an empty tensor, which the reals do not have.\<close>

definition torch_mean :: "real list \<Rightarrow> error + real" where
  "torch_mean xs = (if xs = [] then Inl NotANumber else Inr (sum_list xs / real (length xs)))"

text \<open>\<^verbatim>\<open>sum(xs) / len(xs)\<close> on a Python list of floats.\<close>

definition py_mean :: "real list \<Rightarrow> error + real" where
  "py_mean xs = (if xs = [] then Inl ZeroDivisionError else Inr (sum_list xs / real (length xs)))"

text \<open>\<^verbatim>\<open>max(xs, default=d)\<close>.\<close>

definition py_max_default :: "real list \<Rightarrow> real \<Rightarrow> real" where
  "py_max_default xs d = (case xs of [] \<Rightarrow> d | x # ys \<Rightarrow> fold max ys x)"

text \<open>\<^verbatim>\<open>d[k]\<close> on a \<^verbatim>\<open>defaultdict\<close> whose factory gives an empty container.\<close>

definition dd_get :: "('k \<times> 'v list) list \<Rightarrow> 'k \<Rightarrow> 'v list" where
  "dd_get d k = (case map_of d k of None \<Rightarrow> [] | Some v \<Rightarrow> v)"

text \<open>A read of a missing key of a \<^verbatim>\<open>defaultdict\<close> also stores the empty container.\<close>

definition dd_touch :: "('k \<times> 'v list) list \<Rightarrow> 'k \<Rightarrow> ('k \<times> 'v list) list" where
  "dd_touch d k = (case map_of d k of None \<Rightarrow> d @ [(k, [])] | Some v \<Rightarrow> d)"

section \<open>The search object and its collaborators\<close>

text \<open>
  The attributes of an \<^verbatim>\<open>EdgeSearch\<close> object, and the two functions it imports from
  \<^verbatim>\<open>circuits.search.divergence\<close>. None of the collaborators' sources is at hand, so
  each is a parameter, and each may fail:
  \<^item> \<open>model\<close>: the forward pass on the tokens, then
    \<^verbatim>\<open>feature_magnitudes[upstream_idx].squeeze(0)\<close>;
  \<^item> \<open>model_profile\<close>: \<^verbatim>\<open>model_profile[layer]\<close>, then \<^verbatim>\<open>layer_profile[feature].max\<close>;
  \<^item> \<open>k_nearest\<close>: the ablator's \<^verbatim>\<open>k_nearest\<close>, an integer or \<^verbatim>\<open>None\<close>;
  \<^item> \<open>patch_feature_magnitudes\<close>: layer, target token, circuit variants, upstream
    magnitudes and number of samples to a dictionary from variants to patched
    magnitudes; it is the only consumer of the sampling state;
  \<^item> \<open>compute_downstream_magnitudes\<close>: layer and patched magnitudes to downstream
    magnitudes of shape (num_samples, T, F).
\<close>

record ('s, 'm, 'p) EdgeSearch =
  model :: "int list \<Rightarrow> int \<Rightarrow> error + 'm"
  model_profile :: "int \<Rightarrow> error + (int \<Rightarrow> error + real)"
  k_nearest :: "int option"
  num_samples :: int
  patch_feature_magnitudes ::
    "int \<Rightarrow> int \<Rightarrow> Circuit list \<Rightarrow> 'm \<Rightarrow> int \<Rightarrow> 's \<Rightarrow> (error + (Circuit \<times> 'p) list) \<times> 's"
  compute_downstream_magnitudes :: "int \<Rightarrow> 'p \<Rightarrow> error + tensor"

section \<open>Dependency grouping and sampling\<close>

text \<open>
  \<^verbatim>\<open>
  for node in downstream_nodes:
      node_to_dependencies[node] = frozenset([edge.upstream for edge in edges
                                              if edge.downstream == node])
  dependencies_to_nodes = defaultdict(set)
  for node, dependencies in node_to_dependencies.items():
      dependencies_to_nodes[dependencies].add(node)
  \<close>
\<close>

definition dependencies_of :: "Edge list \<Rightarrow> Node \<Rightarrow> Node set" where
  "dependencies_of es node = set (map upstream (filter (\<lambda>edge. downstream edge = node) es))"

definition node_to_dependencies :: "Node list \<Rightarrow> Edge list \<Rightarrow> (Node \<times> Node set) list" where
  "node_to_dependencies downstream_nodes es =
     fold (\<lambda>node d. AList.update node (dependencies_of es node) d) downstream_nodes []"

definition dependencies_to_nodes :: "(Node \<times> Node set) list \<Rightarrow> (Node set \<times> Node list) list" where
  "dependencies_to_nodes n2d =
     fold (\<lambda>(node, dependencies) d.
             AList.update dependencies (set_add (dd_get d dependencies) node) d) n2d []"

text \<open>
  \<^verbatim>\<open>
  for circuit_variant, magnitudes in sampled_downstream_magnitudes.items():
      for node in dependencies_to_nodes[circuit_variant.nodes]:
          sampled_magnitudes[node] = magnitudes[:, node.token_idx, node.feature_idx]
  \<close>
\<close>

definition assign_samples ::
  "(Node set \<times> Node list) list \<Rightarrow> Circuit \<times> tensor \<Rightarrow> (Node \<times> real list) list \<Rightarrow>
     error + (Node \<times> real list) list" where
  "assign_samples d2n item sampled_magnitudes =
     (case item of (circuit_variant, magnitudes) \<Rightarrow>
        foldE (\<lambda>node acc.
                 bindR (tensor_slice magnitudes (token_idx node) (feature_idx node))
                   (\<lambda>slice. Inr (AList.update node slice acc)))
          (dd_get d2n (nodes circuit_variant)) sampled_magnitudes)"

text \<open>
  \<^verbatim>\<open>circuit_variants = [Circuit(nodes=dependencies)
                       for dependencies in dependencies_to_nodes.keys()]\<close>
\<close>

definition circuit_variants_of :: "Node list \<Rightarrow> Edge list \<Rightarrow> Circuit list" where
  "circuit_variants_of downstream_nodes es =
     map (\<lambda>dependencies. Circuit dependencies [])
       (map fst (dependencies_to_nodes (node_to_dependencies downstream_nodes es)))"

text \<open>
  \<^verbatim>\<open>
  for circuit_variant, patched_magnitudes in patched_upstream_magnitudes.items():
      downstream_magnitudes = compute_downstream_magnitudes(self.model, upstream_layer_idx, ...)
      sampled_downstream_magnitudes[circuit_variant] = downstream_magnitudes
  \<close>
\<close>

definition sampled_downstream_magnitudes ::
  "('s, 'm, 'p) EdgeSearch \<Rightarrow> int \<Rightarrow> (Circuit \<times> 'p) list \<Rightarrow> error + (Circuit \<times> tensor) list" where
  "sampled_downstream_magnitudes self u_layer_idx patched_upstream_magnitudes =
     foldE (\<lambda>(circuit_variant, patched_magnitudes) acc.
              bindR (compute_downstream_magnitudes self u_layer_idx patched_magnitudes)
                (\<lambda>downstream_magnitudes.
                   Inr (AList.update circuit_variant downstream_magnitudes acc)))
       patched_upstream_magnitudes []"

definition sample_downstream_feature_magnitudes ::
  "('s, 'm, 'p) EdgeSearch \<Rightarrow> Node list \<Rightarrow> Edge list \<Rightarrow> 'm \<Rightarrow> int \<Rightarrow> int \<Rightarrow> 's \<Rightarrow>
     (error + (Node \<times> real list) list) \<times> 's" where
  "sample_downstream_feature_magnitudes self downstream_nodes es upstream_magnitudes
       target_token_idx n_samples =
     (let d2n = dependencies_to_nodes (node_to_dependencies downstream_nodes es);
          circuit_variants = circuit_variants_of downstream_nodes es
      in bindS (liftS (next_iter downstream_nodes)) (\<lambda>first.
         let u_layer_idx = layer_idx first - 1 in
         bindS (patch_feature_magnitudes self u_layer_idx target_token_idx
                  circuit_variants upstream_magnitudes n_samples) (\<lambda>patched_upstream_magnitudes.
         liftS (
           bindR (sampled_downstream_magnitudes self u_layer_idx patched_upstream_magnitudes)
             (\<lambda>batches. foldE (assign_samples d2n) batches [])))))"

section \<open>Means and mean-squared errors per downstream node\<close>

text \<open>\<^verbatim>\<open>self.upstream_ablator.k_nearest or int(1e10)\<close>: \<^verbatim>\<open>None\<close> and 0 are both falsy.\<close>

definition k_nearest_or :: "int option \<Rightarrow> int \<Rightarrow> int" where
  "k_nearest_or k d = (case k of None \<Rightarrow> d | Some v \<Rightarrow> if v = 0 then d else v)"

definition means_num_samples :: "('s, 'm, 'p) EdgeSearch \<Rightarrow> int" where
  "means_num_samples self = min (num_samples self * 4) (k_nearest_or (k_nearest self) 10000000000)"

definition estimate_downstream_node_means ::
  "('s, 'm, 'p) EdgeSearch \<Rightarrow> Node list \<Rightarrow> Edge list \<Rightarrow> 'm \<Rightarrow> int \<Rightarrow> 's \<Rightarrow>
     (error + (Node \<times> real) list) \<times> 's" where
  "estimate_downstream_node_means self downstream_nodes es upstream_magnitudes target_token_idx =
     bindS (sample_downstream_feature_magnitudes self downstream_nodes es upstream_magnitudes
              target_token_idx (means_num_samples self)) (\<lambda>sampled_feature_magnitudes.
     liftS (foldE (\<lambda>(node, magnitudes) downstream_means.
                     bindR (torch_mean magnitudes)
                       (\<lambda>mean. Inr (AList.update node mean downstream_means)))
              sampled_feature_magnitudes []))"

text \<open>
  \<^verbatim>\<open>
  norm_coefficients = torch.ones(len(downstream_nodes))
  for i, node in enumerate(sampled_feature_magnitudes.keys()):
      feature_profile = layer_profile[int(node.feature_idx)]
      norm_coefficients[i] = 1.0 / feature_profile.max
  \<close>
  The loop leaves the coefficients and the loop variable \<open>i\<close> behind.
\<close>

definition set_coefficient ::
  "(int \<Rightarrow> error + real) \<Rightarrow> nat \<times> Node \<Rightarrow> real list \<times> nat \<Rightarrow> error + real list \<times> nat" where
  "set_coefficient layer_profile item st =
     (case item of (i, node) \<Rightarrow>
        bindR (layer_profile (feature_idx node)) (\<lambda>feature_profile_max.
          if feature_profile_max = 0 then Inl ZeroDivisionError
          else if i < length (fst st)
               then Inr ((fst st)[i := 1 / feature_profile_max], i)
               else Inl IndexError))"

definition norm_coefficients_loop ::
  "(int \<Rightarrow> error + real) \<Rightarrow> Node list \<Rightarrow> Node list \<Rightarrow> error + real list \<times> nat" where
  "norm_coefficients_loop layer_profile downstream_nodes keys =
     foldE (set_coefficient layer_profile) (enumerate 0 keys)
       (replicate (length downstream_nodes) 1, 0)"

text \<open>
  \<^verbatim>\<open>
  for node, magnitudes in sampled_feature_magnitudes.items():
      original_magnitude = downstream_means[node]
      normalized_mse = torch.mean((norm_coefficients[i] * (magnitudes - original_magnitude)) ** 2)
      downstream_mses[node] = normalized_mse.item()
  \<close>
  Here \<open>i\<close> is what the loop above left behind. Both loops run over the same dictionary,
  so this one has an \<open>i\<close> whenever it has an iteration.
\<close>

definition node_mse ::
  "(Node \<times> real) list \<Rightarrow> real list \<times> nat \<Rightarrow> Node \<times> real list \<Rightarrow> (Node \<times> real) list \<Rightarrow>
     error + (Node \<times> real) list" where
  "node_mse downstream_means st item downstream_mses =
     (case item of (node, magnitudes) \<Rightarrow>
        bindR (dict_get downstream_means node) (\<lambda>original_magnitude.
        bindR (py_index (fst st) (int (snd st))) (\<lambda>coefficient.
        bindR (torch_mean (map (\<lambda>x. (coefficient * (x - original_magnitude))\<^sup>2) magnitudes))
          (\<lambda>normalized_mse. Inr (AList.update node normalized_mse downstream_mses)))))"

definition estimate_downstream_node_mses ::
  "('s, 'm, 'p) EdgeSearch \<Rightarrow> Node list \<Rightarrow> Edge list \<Rightarrow> 'm \<Rightarrow> (Node \<times> real) list \<Rightarrow> int \<Rightarrow> 's \<Rightarrow>
     (error + (Node \<times> real) list) \<times> 's" where
  "estimate_downstream_node_mses self downstream_nodes es upstream_magnitudes downstream_means
       target_token_idx =
     bindS (sample_downstream_feature_magnitudes self downstream_nodes es upstream_magnitudes
              target_token_idx (num_samples self)) (\<lambda>sampled_feature_magnitudes.
     liftS (
       bindR (next_iter downstream_nodes) (\<lambda>first.
       bindR (model_profile self (layer_idx first)) (\<lambda>layer_profile.
       bindR (norm_coefficients_loop layer_profile downstream_nodes
                (map fst sampled_feature_magnitudes)) (\<lambda>st.
       foldE (node_mse downstream_means st) sampled_feature_magnitudes [])))))"

section \<open>Ablation effects\<close>

text \<open>
  \<^verbatim>\<open>
  for edge in edges:
      circuit_variant = Circuit(downstream_nodes, edges=frozenset(edges - {edge}))
      edge_to_circuit_variant[edge] = circuit_variant
  for edge, circuit_variant in edge_to_circuit_variant.items():
      downstream_errors = self.estimate_downstream_node_mses(
          downstream_nodes, circuit_variant.edges, ...)
      edge_to_mse[edge] = downstream_errors[edge.downstream]
  \<close>
\<close>

definition edge_to_circuit_variant :: "Node list \<Rightarrow> Edge list \<Rightarrow> (Edge \<times> Circuit) list" where
  "edge_to_circuit_variant downstream_nodes es =
     fold (\<lambda>edge d. AList.update edge (Circuit (set downstream_nodes) (removeAll edge es)) d)
       es []"

definition estimate_edge_ablation_effects ::
  "('s, 'm, 'p) EdgeSearch \<Rightarrow> Node list \<Rightarrow> Edge list \<Rightarrow> 'm \<Rightarrow> (Node \<times> real) list \<Rightarrow> int \<Rightarrow> 's \<Rightarrow>
     (error + (Edge \<times> real) list) \<times> 's" where
  "estimate_edge_ablation_effects self downstream_nodes es upstream_magnitudes downstream_means
       target_token_idx =
     foldS (\<lambda>(edge, circuit_variant) edge_to_mse.
              bindS (estimate_downstream_node_mses self downstream_nodes (edges circuit_variant)
                       upstream_magnitudes downstream_means target_token_idx)
                (\<lambda>downstream_errors.
                   liftS (bindR (dict_get downstream_errors (downstream edge))
                            (\<lambda>mse. Inr (AList.update edge mse edge_to_mse)))))
       (edge_to_circuit_variant downstream_nodes es) []"

text \<open>
  \<^verbatim>\<open>token_ablation_mses[downstream_node.token_idx][token_idx].append(mse)\<close> on a
  \<^verbatim>\<open>defaultdict(lambda: defaultdict(list))\<close>.
\<close>

definition append_token_mse ::
  "(int \<times> (int \<times> real list) list) list \<Rightarrow> int \<Rightarrow> int \<Rightarrow> real \<Rightarrow>
     (int \<times> (int \<times> real list) list) list" where
  "append_token_mse tam d_token_idx u_token_idx mse =
     (let inner = dd_get tam d_token_idx
      in AList.update d_token_idx
           (AList.update u_token_idx (dd_get inner u_token_idx @ [mse]) inner) tam)"

text \<open>\<^verbatim>\<open>d[k1][k2] = v\<close> on a \<^verbatim>\<open>defaultdict(dict)\<close>.\<close>

definition set_item2 ::
  "('a \<times> ('b \<times> 'v) list) list \<Rightarrow> 'a \<Rightarrow> 'b \<Rightarrow> 'v \<Rightarrow> ('a \<times> ('b \<times> 'v) list) list" where
  "set_item2 d k1 k2 v = AList.update k1 (AList.update k2 v (dd_get d k1)) d"

text \<open>
  One iteration of the loop over the upstream token indices of
  \<^verbatim>\<open>estimate_token_ablation_effects\<close>:
  \<^verbatim>\<open>
  patched_edges = frozenset({edge for edge in all_edges if edge.upstream.token_idx != token_idx})
  estimated_mses = self.estimate_downstream_node_mses(downstream_nodes, patched_edges, ...)
  for downstream_node in {edge.downstream for edge in all_edges
                          if edge.upstream.token_idx == token_idx}:
      mse = estimated_mses[downstream_node]
      token_ablation_mses[downstream_node.token_idx][token_idx].append(mse)
  \<close>
\<close>

definition patched_edges_of :: "Edge list \<Rightarrow> int \<Rightarrow> Edge list" where
  "patched_edges_of all_edges tok =
     py_set (filter (\<lambda>edge. token_idx (upstream edge) \<noteq> tok) all_edges)"

definition ablated_nodes :: "Edge list \<Rightarrow> int \<Rightarrow> Node list" where
  "ablated_nodes all_edges tok =
     py_set (map downstream (filter (\<lambda>edge. token_idx (upstream edge) = tok) all_edges))"

definition ablate_token ::
  "('s, 'm, 'p) EdgeSearch \<Rightarrow> Node list \<Rightarrow> Edge list \<Rightarrow> 'm \<Rightarrow> (Node \<times> real) list \<Rightarrow> int \<Rightarrow>
     int \<Rightarrow> (int \<times> (int \<times> real list) list) list \<Rightarrow> 's \<Rightarrow>
     (error + (int \<times> (int \<times> real list) list) list) \<times> 's" where
  "ablate_token self downstream_nodes all_edges upstream_magnitudes downstream_means
       target_token_idx tok token_ablation_mses =
     bindS (estimate_downstream_node_mses self downstream_nodes (patched_edges_of all_edges tok)
              upstream_magnitudes downstream_means target_token_idx) (\<lambda>estimated_mses.
     liftS (foldE (\<lambda>downstream_node tam.
                     bindR (dict_get estimated_mses downstream_node)
                       (\<lambda>mse. Inr (append_token_mse tam (token_idx downstream_node) tok mse)))
              (ablated_nodes all_edges tok) token_ablation_mses))"

text \<open>
  \<^verbatim>\<open>
  for downstream_token_idx, upstream_token_mses in token_ablation_mses.items():
      for upstream_token_idx, mses in upstream_token_mses.items():
          average_token_ablation_mses[downstream_token_idx][upstream_token_idx] =
              sum(mses) / len(mses)
  \<close>
\<close>

definition average_token_mses ::
  "(int \<times> (int \<times> real list) list) list \<Rightarrow> error + (int \<times> (int \<times> real) list) list" where
  "average_token_mses token_ablation_mses =
     foldE (\<lambda>(d_token_idx, upstream_token_mses) avg.
              foldE (\<lambda>(u_token_idx, mses) avg.
                       bindR (py_mean mses) (\<lambda>m. Inr (set_item2 avg d_token_idx u_token_idx m)))
                upstream_token_mses avg)
       token_ablation_mses []"

definition estimate_token_ablation_effects ::
  "('s, 'm, 'p) EdgeSearch \<Rightarrow> Node list \<Rightarrow> Edge list \<Rightarrow> 'm \<Rightarrow> (Node \<times> real) list \<Rightarrow> int \<Rightarrow> 's \<Rightarrow>
     (error + (int \<times> (int \<times> real) list) list) \<times> 's" where
  "estimate_token_ablation_effects self downstream_nodes all_edges upstream_magnitudes
       downstream_means target_token_idx =
     bindS (foldS (ablate_token self downstream_nodes all_edges upstream_magnitudes
                     downstream_means target_token_idx)
              (sort (py_set (map (\<lambda>edge. token_idx (upstream edge)) all_edges))) [])
       (\<lambda>token_ablation_mses. liftS (average_token_mses token_ablation_mses))"

section \<open>Edge importance\<close>

text \<open>
  \<^verbatim>\<open>
  for edge, mse in sorted(ablation_mses.items(), key=lambda x: x[0]):
      baseline_mse = baseline_mses[edge.downstream]
      edge_mse_increase[edge] = mse - baseline_mse
  \<close>
\<close>

definition edge_mse_increases ::
  "(Edge \<times> real) list \<Rightarrow> (Node \<times> real) list \<Rightarrow> error + (Edge \<times> real) list" where
  "edge_mse_increases ablation_mses baseline_mses =
     foldE (\<lambda>(edge, mse) edge_mse_increase.
              bindR (dict_get baseline_mses (downstream edge))
                (\<lambda>baseline_mse. Inr (AList.update edge (mse - baseline_mse) edge_mse_increase)))
       (sort_key (\<lambda>item. edge_key (fst item)) ablation_mses) []"

text \<open>
  \<^verbatim>\<open>
  for downstream_node in downstream_nodes:
      upstream_edges = {edge for edge in edge_mse_increase.keys()
                        if edge.downstream == downstream_node}
      mse_increases = [edge_mse_increase[edge] for edge in upstream_edges]
      max_mse_increases[downstream_node] = max(mse_increases, default=0)
  \<close>
\<close>

definition node_max_mse_increases ::
  "Node list \<Rightarrow> (Edge \<times> real) list \<Rightarrow> error + (Node \<times> real) list" where
  "node_max_mse_increases downstream_nodes edge_mse_increase =
     foldE (\<lambda>downstream_node max_mse_increases.
              bindR (mapE (dict_get edge_mse_increase)
                       (py_set (filter (\<lambda>edge. downstream edge = downstream_node)
                                  (map fst edge_mse_increase))))
                (\<lambda>mse_increases.
                   Inr (AList.update downstream_node (py_max_default mse_increases 0)
                          max_mse_increases)))
       downstream_nodes []"

text \<open>
  \<^verbatim>\<open>
  for edge, mse_increase in edge_mse_increase.items():
      mse_increase = max(mse_increase, 0)
      max_mse_increase = max(max_mse_increases[edge.downstream], 1e-6)
      edge_importance[edge] = mse_increase / max_mse_increase
  \<close>
\<close>

definition normalize_edge_increases ::
  "(Edge \<times> real) list \<Rightarrow> (Node \<times> real) list \<Rightarrow> error + (Edge \<times> real) list" where
  "normalize_edge_increases edge_mse_increase max_mse_increases =
     foldE (\<lambda>(edge, mse_increase) importance.
              bindR (dict_get max_mse_increases (downstream edge))
                (\<lambda>max_mse_increase.
                   Inr (AList.update edge
                          (max mse_increase 0 / max max_mse_increase (1 / 1000000)) importance)))
       edge_mse_increase []"

text \<open>
  Everything of \<^verbatim>\<open>compute_edge_importance\<close> after the sampling. The statistics that are
  printed read \<^verbatim>\<open>baseline_mses[downstream_node]\<close> for every downstream node, which can raise.
\<close>

definition edge_importance_of ::
  "Node list \<Rightarrow> (Node \<times> real) list \<Rightarrow> (Edge \<times> real) list \<Rightarrow> error + (Edge \<times> real) list" where
  "edge_importance_of downstream_nodes baseline_mses ablation_mses =
     bindR (edge_mse_increases ablation_mses baseline_mses) (\<lambda>edge_mse_increase.
     bindR (node_max_mse_increases downstream_nodes edge_mse_increase) (\<lambda>max_mse_increases.
     bindR (mapE (dict_get baseline_mses) (sorted_nodes downstream_nodes)) (\<lambda>printed.
     normalize_edge_increases edge_mse_increase max_mse_increases)))"

definition compute_edge_importance ::
  "('s, 'm, 'p) EdgeSearch \<Rightarrow> Edge list \<Rightarrow> Node list \<Rightarrow> (Node \<times> real) list \<Rightarrow> 'm \<Rightarrow>
     (Node \<times> real) list \<Rightarrow> int \<Rightarrow> 's \<Rightarrow> (error + (Edge \<times> real) list) \<times> 's" where
  "compute_edge_importance self all_edges downstream_nodes baseline_mses upstream_magnitudes
       downstream_means target_token_idx =
     bindS (estimate_edge_ablation_effects self downstream_nodes all_edges upstream_magnitudes
              downstream_means target_token_idx)
       (\<lambda>ablation_mses. liftS (edge_importance_of downstream_nodes baseline_mses ablation_mses))"

section \<open>Token importance\<close>

text \<open>
  \<^verbatim>\<open>
  for downstream_token_idx in downstream_token_idxs:
      baseline_node_mses = [mse for node, mse in baseline_mses.items()
                            if node.token_idx == downstream_token_idx]
      token_baseline_mses[downstream_token_idx] = sum(baseline_node_mses) / len(baseline_node_mses)
  \<close>
\<close>

definition baseline_node_mses :: "(Node \<times> real) list \<Rightarrow> int \<Rightarrow> real list" where
  "baseline_node_mses baseline_mses d_token_idx =
     map snd (filter (\<lambda>(node, mse). token_idx node = d_token_idx) baseline_mses)"

definition token_baseline_mses :: "int list \<Rightarrow> (Node \<times> real) list \<Rightarrow> error + (int \<times> real) list" where
  "token_baseline_mses downstream_token_idxs baseline_mses =
     foldE (\<lambda>d_token_idx acc.
              bindR (py_mean (baseline_node_mses baseline_mses d_token_idx))
                (\<lambda>m. Inr (AList.update d_token_idx m acc)))
       downstream_token_idxs []"

text \<open>
  \<^verbatim>\<open>
  for downstream_token_idx, upstream_token_mses in sorted(token_ablation_mses.items(), ...):
      for upstream_token_idx, token_mse in sorted(upstream_token_mses.items(), ...):
          baseline_mse = token_baseline_mses[downstream_token_idx]
          token_mse_increases[downstream_token_idx][upstream_token_idx] = token_mse - baseline_mse
  \<close>
\<close>

definition token_mse_increases ::
  "(int \<times> (int \<times> real) list) list \<Rightarrow> (int \<times> real) list \<Rightarrow> error + (int \<times> (int \<times> real) list) list" where
  "token_mse_increases token_ablation_mses token_baselines =
     foldE (\<lambda>(d_token_idx, upstream_token_mses) incs.
              foldE (\<lambda>(u_token_idx, token_mse) incs.
                       bindR (dict_get token_baselines d_token_idx)
                         (\<lambda>baseline_mse.
                            Inr (set_item2 incs d_token_idx u_token_idx (token_mse - baseline_mse))))
                (sort_key fst upstream_token_mses) incs)
       (sort_key fst token_ablation_mses) []"

text \<open>
  \<^verbatim>\<open>
  for downstream_token_idx in downstream_token_idxs:
      max_mse_increase = max(token_mse_increases[downstream_token_idx].values(), default=0)
      max_mse_increases[downstream_token_idx] = max_mse_increase
  \<close>
  The read of \<^verbatim>\<open>token_mse_increases[downstream_token_idx]\<close> stores an empty dictionary
  under a key that was missing, so the loop returns the dictionary as well.
\<close>

definition token_max_mse_increases ::
  "int list \<Rightarrow> (int \<times> (int \<times> real) list) list \<Rightarrow>
     (int \<times> (int \<times> real) list) list \<times> (int \<times> real) list" where
  "token_max_mse_increases downstream_token_idxs incs =
     fold (\<lambda>d_token_idx (incs, max_mse_increases).
             (dd_touch incs d_token_idx,
              AList.update d_token_idx (py_max_default (map snd (dd_get incs d_token_idx)) 0)
                max_mse_increases))
       downstream_token_idxs (incs, [])"

text \<open>
  \<^verbatim>\<open>
  for downstream_token_idx, token_mses in token_mse_increases.items():
      for upstream_token_idx, mse_increase in token_mses.items():
          edge_group = EdgeGroup(upstream_layer_idx, upstream_token_idx, downstream_token_idx)
          mse_increase = max(mse_increase, 0)
          max_mse_increase = max(max_mse_increases[downstream_token_idx], 1e-6)
          token_importance[edge_group] = mse_increase / max_mse_increase
  \<close>
\<close>

definition normalize_token_increases ::
  "int \<Rightarrow> (int \<times> (int \<times> real) list) list \<Rightarrow> (int \<times> real) list \<Rightarrow>
     error + (EdgeGroup \<times> real) list" where
  "normalize_token_increases u_layer_idx incs max_mse_increases =
     foldE (\<lambda>(d_token_idx, token_mses) importance.
              foldE (\<lambda>(u_token_idx, mse_increase) importance.
                       bindR (dict_get max_mse_increases d_token_idx)
                         (\<lambda>max_mse_increase.
                            Inr (AList.update (EdgeGroup u_layer_idx u_token_idx d_token_idx)
                                   (max mse_increase 0 / max max_mse_increase (1 / 1000000))
                                   importance)))
                token_mses importance)
       incs []"

text \<open>Everything of \<^verbatim>\<open>compute_token_importance\<close> after the sampling.\<close>

definition token_importance_of ::
  "int \<Rightarrow> int list \<Rightarrow> (int \<times> real) list \<Rightarrow> (int \<times> (int \<times> real) list) list \<Rightarrow>
     error + (EdgeGroup \<times> real) list" where
  "token_importance_of u_layer_idx downstream_token_idxs token_baselines token_ablation_mses =
     bindR (token_mse_increases token_ablation_mses token_baselines) (\<lambda>incs.
       case token_max_mse_increases downstream_token_idxs incs of
         (incs', max_mse_increases) \<Rightarrow>
           bindR (mapE (dict_get token_baselines) downstream_token_idxs) (\<lambda>printed.
             normalize_token_increases u_layer_idx incs' max_mse_increases))"

definition compute_token_importance ::
  "('s, 'm, 'p) EdgeSearch \<Rightarrow> Edge list \<Rightarrow> Node list \<Rightarrow> (Node \<times> real) list \<Rightarrow> 'm \<Rightarrow>
     (Node \<times> real) list \<Rightarrow> int \<Rightarrow> 's \<Rightarrow> (error + (EdgeGroup \<times> real) list) \<times> 's" where
  "compute_token_importance self all_edges downstream_nodes baseline_mses upstream_magnitudes
       downstream_means target_token_idx =
     bindS (liftS (next_iter downstream_nodes)) (\<lambda>first.
     let u_layer_idx = layer_idx first - 1;
         downstream_token_idxs = sort (py_set (map token_idx downstream_nodes))
     in bindS (liftS (token_baseline_mses downstream_token_idxs baseline_mses)) (\<lambda>token_baselines.
        bindS (estimate_token_ablation_effects self downstream_nodes all_edges upstream_magnitudes
                 downstream_means target_token_idx) (\<lambda>token_ablation_mses.
        liftS (token_importance_of u_layer_idx downstream_token_idxs token_baselines
                 token_ablation_mses))))"

section \<open>The search\<close>

definition search ::
  "('s, 'm, 'p) EdgeSearch \<Rightarrow> int list \<Rightarrow> Node list \<Rightarrow> Node list \<Rightarrow> int \<Rightarrow> 's \<Rightarrow>
     (error + EdgeSearchResult) \<times> 's" where
  "search self tokens upstream_nodes downstream_nodes target_token_idx =
     (if \<not> length downstream_nodes > 0 then liftS (Inl AssertionError)
      else
        bindS (liftS (next_iter downstream_nodes)) (\<lambda>first.
        let downstream_idx = layer_idx first;
            upstream_idx = downstream_idx - 1
        in bindS (liftS (model self tokens upstream_idx)) (\<lambda>upstream_magnitudes.
           let all_edges = find_all_edges upstream_nodes downstream_nodes
           in bindS (estimate_downstream_node_means self downstream_nodes all_edges
                       upstream_magnitudes target_token_idx) (\<lambda>downstream_means.
              bindS (estimate_downstream_node_mses self downstream_nodes all_edges
                       upstream_magnitudes downstream_means target_token_idx) (\<lambda>baseline_mses.
              bindS (compute_edge_importance self all_edges downstream_nodes baseline_mses
                       upstream_magnitudes downstream_means target_token_idx) (\<lambda>edge_imp.
              bindS (compute_token_importance self all_edges downstream_nodes baseline_mses
                       upstream_magnitudes downstream_means target_token_idx) (\<lambda>token_imp.
              liftS (Inr \<lparr> edge_importance = edge_imp, token_importance = token_imp \<rparr>))))))))"

section \<open>Observing the requests made to the ablator\<close>

text \<open>
  The same search object, with an ablator that also records every request it receives:
  the circuit variants and the number of samples asked for. The record is part of the
  sampling state, so it tells what a run asked of the ablator, and in which order.
\<close>

definition with_request_log ::
  "('s, 'm, 'p) EdgeSearch \<Rightarrow> ('s \<times> (Circuit list \<times> int) list, 'm, 'p) EdgeSearch" where
  "with_request_log self =
     \<lparr> model = model self,
       model_profile = model_profile self,
       k_nearest = k_nearest self,
       num_samples = num_samples self,
       patch_feature_magnitudes =
         (\<lambda>l t circuit_variants upstream_magnitudes n (s, requests).
            case patch_feature_magnitudes self l t circuit_variants upstream_magnitudes n s of
              (r, s') \<Rightarrow> (r, (s', requests @ [(circuit_variants, n)]))),
       compute_downstream_magnitudes = compute_downstream_magnitudes self \<rparr>"

section \<open>A concrete search\<close>

text \<open>
  The scenario of the specification: three upstream nodes at token positions 0, 1 and 2,
  two downstream nodes at token positions 1 and 2. The collaborators are simple and
  deterministic: sample \<open>j\<close> of a circuit variant is 0 when \<open>j\<close> is even and otherwise
  \<open>c\<close> times the weight of the upstream nodes that the variant does not keep, at every
  token and feature; there are three tokens and two features; the maximum of feature 0
  is 1 and that of every other feature is 2.
\<close>

definition scenario_upstream :: "Node list" where
  "scenario_upstream = [Node 0 0 0, Node 0 1 0, Node 0 2 0]"

definition scenario_downstream :: "Node list" where
  "scenario_downstream = [Node 1 1 0, Node 1 2 1]"

definition scenario_sample :: "real \<Rightarrow> Node set \<Rightarrow> nat \<Rightarrow> real" where
  "scenario_sample c kept j =
     (if even j then 0
      else c * real_of_int (sum_list (map (\<lambda>u. token_idx u + 1)
                 (filter (\<lambda>u. u \<notin> kept) scenario_upstream))))"

definition scenario_patch ::
  "real \<Rightarrow> int \<Rightarrow> int \<Rightarrow> Circuit list \<Rightarrow> unit \<Rightarrow> int \<Rightarrow> unit \<Rightarrow>
     (error + (Circuit \<times> tensor) list) \<times> unit" where
  "scenario_patch c l t circuit_variants um n s =
     (Inr (map (\<lambda>cv. (cv, map (\<lambda>j. replicate 3 (replicate 2 (scenario_sample c (nodes cv) j)))
                             [0..<nat n])) circuit_variants), s)"

definition scenario_search :: "real \<Rightarrow> int \<Rightarrow> (unit, unit, tensor) EdgeSearch" where
  "scenario_search c n =
     \<lparr> model = (\<lambda>tokens layer. Inr ()),
       model_profile = (\<lambda>layer. Inr (\<lambda>f. Inr (if f = 0 then 1 else 2))),
       k_nearest = None,
       num_samples = n,
       patch_feature_magnitudes = scenario_patch c,
       compute_downstream_magnitudes = (\<lambda>l p. Inr p) \<rparr>"

section \<open>The batch of a dependency set\<close>

text \<open>
  The batch that the last loop of \<^verbatim>\<open>sample_downstream_feature_magnitudes\<close> leaves with the
  nodes of a dependency set: the loop runs over all batches, and a later batch whose
  circuit has the same nodes overwrites an earlier one.
\<close>

definition batch_of :: "(Circuit \<times> tensor) list \<Rightarrow> Node set \<Rightarrow> tensor option" where
  "batch_of batches K =
     (let found = filter (\<lambda>item. nodes (fst item) = K) batches
      in if found = [] then None else Some (snd (last found)))"

section \<open>The normalized error of the specification\<close>

text \<open>
  The formula of the specification, in its words:
  \<^verbatim>\<open>normalized_mse[node] = mean_over_samples((coeff[node] * (sample[node] - reference_mean[node]))^2)\<close>
  where \<^verbatim>\<open>coeff[node] = 1 / max_observed_magnitude(node)\<close>, the maximum being looked up by
  the node's own feature index.
\<close>

definition spec_normalized_mse :: "(int \<Rightarrow> real) \<Rightarrow> Node \<Rightarrow> real list \<Rightarrow> real \<Rightarrow> real" where
  "spec_normalized_mse max_observed_magnitude node samples reference_mean =
     sum_list (map (\<lambda>x. (1 / max_observed_magnitude (feature_idx node) * (x - reference_mean))\<^sup>2)
                 samples)
       / real (length samples)"

section \<open>Nested dictionaries\<close>

text \<open>
  Reading \<^verbatim>\<open>d[k1][k2]\<close>, the dictionaries whose keys are all distinct, and the items
  \<open>(k1, k2, v)\<close> of a nested dictionary in the order of a loop nested in a loop.
\<close>

definition lookup2 :: "('a \<times> ('b \<times> 'v) list) list \<Rightarrow> 'a \<Rightarrow> 'b \<Rightarrow> 'v option" where
  "lookup2 d k1 k2 = map_of (dd_get d k1) k2"

definition wf2 :: "('a \<times> ('b \<times> 'v) list) list \<Rightarrow> bool" where
  "wf2 d = (distinct (map fst d) \<and> list_all (\<lambda>item. distinct (map fst (snd item))) d)"

definition items2 :: "('a \<times> ('b \<times> 'v) list) list \<Rightarrow> ('a \<times> 'b \<times> 'v) list" where
  "items2 d = concat (map (\<lambda>item. map (\<lambda>inner. (fst item, fst inner, snd inner)) (snd item)) d)"

text \<open>The items of a nested dictionary in the order of
  \<^verbatim>\<open>sorted(d.items(), key=lambda x: x[0])\<close> on both levels.\<close>

definition sorted_items2 :: "(int \<times> (int \<times> real) list) list \<Rightarrow> (int \<times> (int \<times> real) list) list" where
  "sorted_items2 d = map (\<lambda>item. (fst item, sort_key fst (snd item))) (sort_key fst d)"

section \<open>Helper lemmas\<close>

lemma set_set_add: "set (set_add xs x) = insert x (set xs)"
  by (auto simp: set_add_def)

lemma distinct_set_add: "distinct xs \<Longrightarrow> distinct (set_add xs x)"
  by (simp add: set_add_def)

lemma set_fold_set_add: "set (fold (\<lambda>x acc. set_add acc (f x)) xs acc) = f ` set xs \<union> set acc"
  by (induction xs arbitrary: acc) (auto simp: set_set_add)

lemma distinct_fold_set_add:
  "distinct acc \<Longrightarrow> distinct (fold (\<lambda>x acc. set_add acc (f x)) xs acc)"
  by (induction xs arbitrary: acc) (auto simp: distinct_set_add)

lemma set_py_set: "set (py_set xs) = set xs"
  using set_fold_set_add [of "\<lambda>x. x" xs "[]"] by (simp add: py_set_def)

lemma distinct_py_set: "distinct (py_set xs)"
  using distinct_fold_set_add [of "[]" "\<lambda>x. x" xs] by (simp add: py_set_def)

lemma set_sorted_nodes: "set (sorted_nodes ns) = set ns"
  by (simp add: sorted_nodes_def)

lemma set_add_edges_from:
  "set (add_edges_from ds u acc) =
     {Edge u d | d. d \<in> set ds \<and> token_idx u \<le> token_idx d} \<union> set acc"
proof -
  have "set (fold (\<lambda>d acc. if token_idx u \<le> token_idx d then set_add acc (Edge u d) else acc)
               xs acc) =
        {Edge u d | d. d \<in> set xs \<and> token_idx u \<le> token_idx d} \<union> set acc" for xs
    by (induction xs arbitrary: acc) (auto simp: set_set_add)
  then show ?thesis
    by (simp add: add_edges_from_def set_sorted_nodes)
qed

lemma set_fold_add_edges_from:
  "set (fold (add_edges_from ds) us acc) = causal_edges (set us) (set ds) \<union> set acc"
  by (induction us arbitrary: acc) (auto simp: set_add_edges_from causal_edges_def image_iff)

lemma set_find_all_edges:
  "set (find_all_edges us ds) = causal_edges (set us) (set ds)"
  by (simp add: find_all_edges_def set_fold_add_edges_from set_sorted_nodes)

lemma distinct_add_edges_from: "distinct acc \<Longrightarrow> distinct (add_edges_from ds u acc)"
proof -
  have "distinct acc \<Longrightarrow>
        distinct (fold (\<lambda>d acc. if token_idx u \<le> token_idx d then set_add acc (Edge u d) else acc)
               xs acc)" for xs
    by (induction xs arbitrary: acc) (auto simp: distinct_set_add)
  then show "distinct acc \<Longrightarrow> distinct (add_edges_from ds u acc)"
    by (simp add: add_edges_from_def)
qed

lemma distinct_find_all_edges: "distinct (find_all_edges us ds)"
proof -
  have "distinct acc \<Longrightarrow> distinct (fold (add_edges_from ds) xs acc)" for xs acc
    by (induction xs arbitrary: acc) (auto simp: distinct_add_edges_from)
  then show ?thesis by (simp add: find_all_edges_def)
qed

lemma set_add_groups_from:
  "set (add_groups_from ds (l, t) acc) =
     {EdgeGroup l t (token_idx d) | d. d \<in> set ds \<and> t \<le> token_idx d} \<union> set acc"
  by (auto simp: add_groups_from_def set_fold_set_add set_py_set)

lemma set_fold_add_groups_from:
  "set (fold (add_groups_from ds) blks acc) =
     {EdgeGroup l t (token_idx d) | l t d. (l, t) \<in> set blks \<and> d \<in> set ds \<and> t \<le> token_idx d}
       \<union> set acc"
proof (induction blks arbitrary: acc)
  case Nil
  then show ?case by simp
next
  case (Cons b blks)
  obtain l t where b: "b = (l, t)" by (cases b)
  show ?case
    unfolding fold_Cons comp_apply Cons.IH b set_add_groups_from by auto
qed

lemma set_find_all_edge_groups:
  "set (find_all_edge_groups us ds) = group_of ` causal_edges (set us) (set ds)"
proof -
  have "set (find_all_edge_groups us ds) =
        {EdgeGroup (layer_idx u) (token_idx u) (token_idx d) | u d.
           u \<in> set us \<and> d \<in> set ds \<and> token_idx u \<le> token_idx d}"
    unfolding find_all_edge_groups_def set_fold_add_groups_from set_py_set
    by auto
  also have "\<dots> = group_of ` causal_edges (set us) (set ds)"
    by (auto simp: causal_edges_def group_of_def image_iff) blast+
  finally show ?thesis .
qed

lemma bindR_Inr_iff: "bindR r f = Inr y \<longleftrightarrow> (\<exists>x. r = Inr x \<and> f x = Inr y)"
  by (cases r) (simp_all add: bindR_def)

lemma bindS_Inr_iff:
  "bindS m f s = (Inr y, s') \<longleftrightarrow> (\<exists>x s1. m s = (Inr x, s1) \<and> f x s1 = (Inr y, s'))"
  by (cases "m s" rule: prod.exhaust; cases "fst (m s)") (auto simp: bindS_def)

lemma liftS_iff: "liftS r s = (r', s') \<longleftrightarrow> r' = r \<and> s' = s"
  by (auto simp: liftS_def)

lemma next_iter_Inr_iff: "next_iter xs = Inr x \<longleftrightarrow> (\<exists>ys. xs = x # ys)"
  by (cases xs) (auto simp: next_iter_def)

lemma dict_get_Inr_iff: "dict_get d k = Inr v \<longleftrightarrow> map_of d k = Some v"
  by (simp add: dict_get_def split: option.splits)

lemma foldE_invariant:
  assumes "foldE f xs a = Inr r" and "I a"
    and "\<And>x a a'. x \<in> set xs \<Longrightarrow> I a \<Longrightarrow> f x a = Inr a' \<Longrightarrow> I a'"
  shows "I r"
  using assms
proof (induction xs arbitrary: a)
  case Nil
  then show ?case by simp
next
  case (Cons x xs)
  from Cons.prems(1) obtain a' where a': "f x a = Inr a'" and r: "foldE f xs a' = Inr r"
    by (auto simp: bindR_Inr_iff)
  have "I a'" by (rule Cons.prems(3) [OF _ Cons.prems(2) a']) simp
  then show ?case using Cons.IH [OF r] Cons.prems(3) by auto
qed

lemma foldS_invariant:
  assumes "foldS f xs a s = (Inr r, s')" and "I a"
    and "\<And>x a a' s1 s2. x \<in> set xs \<Longrightarrow> I a \<Longrightarrow> f x a s1 = (Inr a', s2) \<Longrightarrow> I a'"
  shows "I r"
  using assms
proof (induction xs arbitrary: a s)
  case Nil
  then show ?case by simp
next
  case (Cons x xs)
  from Cons.prems(1) obtain a' s1 where a': "f x a s = (Inr a', s1)"
    and r: "foldS f xs a' s1 = (Inr r, s')"
    by (auto simp: bindS_Inr_iff)
  have "I a'" by (rule Cons.prems(3) [OF _ Cons.prems(2) a']) simp
  then show ?case using Cons.IH [OF r] Cons.prems(3) by (meson list.set_intros(2))
qed

lemma mapE_Inr_iff: "mapE f xs = Inr ys \<longleftrightarrow> list_all2 (\<lambda>x y. f x = Inr y) xs ys"
proof (induction xs arbitrary: ys)
  case Nil
  then show ?case by auto
next
  case (Cons x xs)
  show ?case
    by (cases ys) (auto simp: bindR_Inr_iff Cons.IH)
qed

lemma map_of_const_map:
  "map_of (map (\<lambda>x. (x, c)) xs) k = (if k \<in> set xs then Some c else None)"
  by (induction xs) auto

lemma distinct_add_groups_from: "distinct acc \<Longrightarrow> distinct (add_groups_from ds b acc)"
  by (cases b) (simp add: add_groups_from_def distinct_fold_set_add)

lemma distinct_find_all_edge_groups: "distinct (find_all_edge_groups us ds)"
proof -
  have "distinct acc \<Longrightarrow> distinct (fold (add_groups_from ds) xs acc)" for xs acc
    by (induction xs arbitrary: acc) (auto simp: distinct_add_groups_from)
  then show ?thesis by (simp add: find_all_edge_groups_def)
qed

lemma means_num_samples_cases:
  "means_num_samples self =
     (case k_nearest self of
        None \<Rightarrow> min (4 * num_samples self) 10000000000
      | Some k \<Rightarrow> if k = 0 then min (4 * num_samples self) 10000000000
                  else min (4 * num_samples self) k)"
  by (simp add: means_num_samples_def k_nearest_or_def mult.commute split: option.splits)

lemma snd_bindS_liftS: "snd (bindS m (\<lambda>x. liftS (g x)) s) = snd (m s)"
  by (cases "m s" rule: prod.exhaust; cases "fst (m s)") (auto simp: bindS_def liftS_def)

lemma sample_request_log:
  "snd (sample_downstream_feature_magnitudes (with_request_log self) D es um t n (s, reqs)) =
     (if D = [] then (s, reqs)
      else (snd (patch_feature_magnitudes self (layer_idx (hd D) - 1) t
                   (circuit_variants_of D es) um n s),
            reqs @ [(circuit_variants_of D es, n)]))"
proof (cases D)
  case Nil
  then show ?thesis
    by (simp add: sample_downstream_feature_magnitudes_def Let_def bindS_def liftS_def
        next_iter_def)
next
  case (Cons d ds)
  obtain r s' where p: "patch_feature_magnitudes self (layer_idx d - 1) t
      (circuit_variants_of (d # ds) es) um n s = (r, s')"
    by (cases "patch_feature_magnitudes self (layer_idx d - 1) t
      (circuit_variants_of (d # ds) es) um n s")
  show ?thesis
    unfolding Cons sample_downstream_feature_magnitudes_def Let_def
    by (cases r) (simp_all add: bindS_def liftS_def next_iter_def with_request_log_def p)
qed

lemma means_request_log:
  "snd (snd (estimate_downstream_node_means (with_request_log self) D es um t (s, reqs))) =
     (if D = [] then reqs else reqs @ [(circuit_variants_of D es, means_num_samples self)])"
proof -
  have "means_num_samples (with_request_log self) = means_num_samples self"
    by (simp add: means_num_samples_def with_request_log_def)
  then show ?thesis
    by (simp add: estimate_downstream_node_means_def snd_bindS_liftS sample_request_log)
qed

lemma dd_get_update: "dd_get (AList.update k v d) k' = (if k' = k then v else dd_get d k')"
  by (simp add: dd_get_def update_conv')

lemma foldE_append: "foldE f (xs @ ys) a = bindR (foldE f xs a) (foldE f ys)"
  by (induction xs arbitrary: a) (auto simp: bindR_def split: sum.splits)

lemma map_of_fold_update_key:
  "map_of (fold (\<lambda>n d. AList.update n (g n) d) ns acc) y =
     (if y \<in> set ns then Some (g y) else map_of acc y)"
  by (induction ns arbitrary: acc) (auto simp: update_conv')

lemma distinct_fold_update_key:
  "distinct (map fst acc) \<Longrightarrow> distinct (map fst (fold (\<lambda>n d. AList.update n (g n) d) ns acc))"
  by (induction ns arbitrary: acc) (auto simp: distinct_update)

lemma keys_fold_update_key:
  "fst ` set (fold (\<lambda>n d. AList.update n (g n) d) ns acc) = set ns \<union> fst ` set acc"
  by (induction ns arbitrary: acc) (auto simp: dom_update)

lemma distinct_node_to_dependencies: "distinct (map fst (node_to_dependencies D es))"
  by (simp add: node_to_dependencies_def distinct_fold_update_key)

lemma set_node_to_dependencies:
  "(d, K) \<in> set (node_to_dependencies D es) \<longleftrightarrow> d \<in> set D \<and> K = dependencies_of es d"
proof -
  have "(d, K) \<in> set (node_to_dependencies D es) \<longleftrightarrow>
        map_of (node_to_dependencies D es) d = Some K"
    using distinct_node_to_dependencies by simp
  then show ?thesis
    by (auto simp: node_to_dependencies_def map_of_fold_update_key)
qed

lemma dd_get_group_fold:
  "set (dd_get (fold (\<lambda>(node, K) d. AList.update K (set_add (dd_get d K) node) d) xs acc) K') =
     {n. (n, K') \<in> set xs} \<union> set (dd_get acc K')"
proof (induction xs arbitrary: acc)
  case Nil
  then show ?case by simp
next
  case (Cons x xs)
  obtain n K where x: "x = (n, K)" by (cases x)
  show ?case
    by (auto simp: x Cons.IH dd_get_update set_set_add)
qed



lemma set_dependency_group:
  "set (dd_get (dependencies_to_nodes (node_to_dependencies D es)) K) =
     {n \<in> set D. dependencies_of es n = K}"
proof -
  have "dd_get ([] :: (Node set \<times> Node list) list) K = []"
    by (simp add: dd_get_def)
  then show ?thesis
    unfolding dependencies_to_nodes_def dd_get_group_fold
    by (auto simp: set_node_to_dependencies)
qed





text \<open>A loop that stores one computed value per item.\<close>

lemma foldE_update_lookup:
  assumes "foldE (\<lambda>x acc. bindR (g x) (\<lambda>v. Inr (AList.update (k x) v acc))) xs acc = Inr acc'"
  shows "(\<forall>x\<in>set xs. \<exists>v. g x = Inr v)
       \<and> (\<forall>y v. map_of acc' y = Some v \<longrightarrow>
             (\<exists>x\<in>set xs. k x = y \<and> g x = Inr v) \<or> (y \<notin> k ` set xs \<and> map_of acc y = Some v))
       \<and> fst ` set acc' = k ` set xs \<union> fst ` set acc
       \<and> (distinct (map fst acc) \<longrightarrow> distinct (map fst acc'))"
  using assms
proof (induction xs arbitrary: acc)
  case Nil
  then show ?case by simp
next
  case (Cons x xs)
  from Cons.prems obtain v where v: "g x = Inr v"
    and r: "foldE (\<lambda>x acc. bindR (g x) (\<lambda>v. Inr (AList.update (k x) v acc))) xs
              (AList.update (k x) v acc) = Inr acc'"
    by (auto simp: bindR_Inr_iff)
  note IH = Cons.IH [OF r]
  show ?case
  proof (intro conjI allI impI)
    show "\<forall>x\<in>set (x # xs). \<exists>v. g x = Inr v" using IH v by auto
  next
    fix y w assume "map_of acc' y = Some w"
    with IH have "(\<exists>x\<in>set xs. k x = y \<and> g x = Inr w)
        \<or> (y \<notin> k ` set xs \<and> map_of (AList.update (k x) v acc) y = Some w)"
      by blast
    then show "(\<exists>x\<in>set (x # xs). k x = y \<and> g x = Inr w)
        \<or> (y \<notin> k ` set (x # xs) \<and> map_of acc y = Some w)"
      using v by (auto simp: update_conv' split: if_splits)
  next
    show "fst ` set acc' = k ` set (x # xs) \<union> fst ` set acc"
      using IH by (auto simp: dom_update)
  next
    assume "distinct (map fst acc)"
    then show "distinct (map fst acc')" using IH by (simp add: distinct_update)
  qed
qed

lemma assign_samples_lookup:
  assumes "assign_samples d2n (cv, mags) acc = Inr acc'"
  shows "(node \<in> set (dd_get d2n (nodes cv)) \<longrightarrow>
            (\<exists>xs. tensor_slice mags (token_idx node) (feature_idx node) = Inr xs
                \<and> map_of acc' node = Some xs))
       \<and> (node \<notin> set (dd_get d2n (nodes cv)) \<longrightarrow> map_of acc' node = map_of acc node)"
proof -
  let ?g = "\<lambda>node. tensor_slice mags (token_idx node) (feature_idx node)"
  have "foldE (\<lambda>x acc. bindR (?g x) (\<lambda>v. Inr (AList.update x v acc))) ns acc = Inr acc' \<Longrightarrow>
        (node \<in> set ns \<longrightarrow> (\<exists>xs. ?g node = Inr xs \<and> map_of acc' node = Some xs))
      \<and> (node \<notin> set ns \<longrightarrow> map_of acc' node = map_of acc node)" for ns
  proof (induction ns arbitrary: acc)
    case Nil
    then show ?case by simp
  next
    case (Cons x ns)
    from Cons.prems obtain v where v: "?g x = Inr v"
      and r: "foldE (\<lambda>x acc. bindR (?g x) (\<lambda>v. Inr (AList.update x v acc))) ns
                (AList.update x v acc) = Inr acc'"
      by (auto simp: bindR_Inr_iff)
    show ?case
      using Cons.IH [OF r] v by (auto simp: update_conv')
  qed
  then show ?thesis
    using assms by (simp add: assign_samples_def)
qed

lemma assign_samples_fold_lookup:
  assumes "foldE (assign_samples d2n) batches [] = Inr sm"
  shows "(if filter (\<lambda>item. node \<in> set (dd_get d2n (nodes (fst item)))) batches = []
          then map_of sm node = None
          else \<exists>xs. tensor_slice
                      (snd (last (filter (\<lambda>item. node \<in> set (dd_get d2n (nodes (fst item))))
                                    batches)))
                      (token_idx node) (feature_idx node) = Inr xs
                 \<and> map_of sm node = Some xs)"
  using assms
proof (induction batches arbitrary: sm rule: rev_induct)
  case Nil
  then show ?case by simp
next
  case (snoc b batches)
  obtain cv mags where b: "b = (cv, mags)" by (cases b)
  from snoc.prems obtain sm0 where sm0: "foldE (assign_samples d2n) batches [] = Inr sm0"
    and sm: "assign_samples d2n (cv, mags) sm0 = Inr sm"
    by (auto simp: foldE_append bindR_Inr_iff b)
  note IH = snoc.IH [OF sm0]
  note A = assign_samples_lookup [OF sm, of node]
  show ?case
  proof (cases "node \<in> set (dd_get d2n (nodes cv))")
    case True
    with A obtain xs where "tensor_slice mags (token_idx node) (feature_idx node) = Inr xs"
      "map_of sm node = Some xs" by blast
    then show ?thesis using True by (simp add: b)
  next
    case False
    with A have "map_of sm node = map_of sm0 node" by blast
    then show ?thesis using False IH by (simp add: b)
  qed
qed

lemma liftS_Inr_iff: "liftS r s = (Inr x, s') \<longleftrightarrow> r = Inr x \<and> s' = s"
  by (auto simp: liftS_def)

lemma sample_decompose:
  assumes "sample_downstream_feature_magnitudes self D es um t n s = (Inr sm, s')"
  shows "\<exists>patched batches.
           D \<noteq> []
         \<and> patch_feature_magnitudes self (layer_idx (hd D) - 1) t (circuit_variants_of D es) um n s
             = (Inr patched, s')
         \<and> sampled_downstream_magnitudes self (layer_idx (hd D) - 1) patched = Inr batches
         \<and> foldE (assign_samples (dependencies_to_nodes (node_to_dependencies D es))) batches []
             = Inr sm"
  using assms
  by (auto simp: sample_downstream_feature_magnitudes_def Let_def bindS_Inr_iff liftS_Inr_iff
      next_iter_Inr_iff bindR_Inr_iff)

lemma sample_lookup:
  assumes "foldE (assign_samples (dependencies_to_nodes (node_to_dependencies D es))) batches []
             = Inr sm"
    and "map_of sm node = Some xs"
  shows "node \<in> set D \<and> (\<exists>mags. batch_of batches (dependencies_of es node) = Some mags
            \<and> tensor_slice mags (token_idx node) (feature_idx node) = Inr xs)"
proof -
  let ?d2n = "dependencies_to_nodes (node_to_dependencies D es)"
  let ?P = "\<lambda>item. node \<in> set (dd_get ?d2n (nodes (fst item)))"
  note L = assign_samples_fold_lookup [OF assms(1), of node]
  from L assms(2) have ne: "filter ?P batches \<noteq> []"
    by (auto split: if_splits)
  then obtain item where "item \<in> set batches" and "?P item"
    by (auto simp: filter_empty_conv)
  then have D: "node \<in> set D" by (simp add: set_dependency_group)
  then have eq: "?P = (\<lambda>item. nodes (fst item) = dependencies_of es node)"
    by (auto simp: set_dependency_group fun_eq_iff)
  from L ne assms(2) have
    "tensor_slice (snd (last (filter ?P batches))) (token_idx node) (feature_idx node) = Inr xs"
    by auto
  with ne show ?thesis
    unfolding eq batch_of_def Let_def using D by simp
qed

lemma bindR_assoc: "bindR (bindR a f) g = bindR a (\<lambda>x. bindR (f x) g)"
  by (cases a) (simp_all add: bindR_def)

lemma py_index_nat: "i < length xs \<Longrightarrow> py_index xs (int i) = Inr (xs ! i)"
  by (simp add: py_index_def)

lemma set_coefficient_fold:
  assumes "foldE (set_coefficient lp) (enumerate n keys) (cs, i0) = Inr (cs', i)"
    and "keys \<noteq> []"
  shows "i = n + length keys - 1 \<and> length cs' = length cs \<and> i < length cs
       \<and> (\<exists>mx. lp (feature_idx (last keys)) = Inr mx \<and> mx \<noteq> 0 \<and> cs' ! i = 1 / mx)"
  using assms
proof (induction keys arbitrary: n cs i0)
  case Nil
  then show ?case by simp
next
  case (Cons k keys)
  from Cons.prems(1) obtain st where st: "set_coefficient lp (n, k) (cs, i0) = Inr st"
    and r: "foldE (set_coefficient lp) (enumerate (Suc n) keys) st = Inr (cs', i)"
    by (auto simp: bindR_Inr_iff)
  from st obtain mx where mx: "lp (feature_idx k) = Inr mx" "mx \<noteq> 0" "n < length cs"
    and st_eq: "st = (cs[n := 1 / mx], n)"
    by (auto simp: set_coefficient_def bindR_Inr_iff split: if_splits)
  show ?case
  proof (cases "keys = []")
    case True
    with r st_eq have "cs' = cs[n := 1 / mx]" "i = n" by auto
    then show ?thesis using mx True by simp
  next
    case False
    from Cons.IH [OF r [unfolded st_eq] False] show ?thesis
      using False by auto
  qed
qed

lemma norm_coefficients_loop_last:
  assumes "norm_coefficients_loop lp D keys = Inr (cs, i)" and "keys \<noteq> []"
  shows "i < length cs \<and> (\<exists>mx. lp (feature_idx (last keys)) = Inr mx \<and> mx \<noteq> 0 \<and> cs ! i = 1 / mx)"
  using set_coefficient_fold [OF assms(1) [unfolded norm_coefficients_loop_def] assms(2)]
  by auto

lemma node_mse_alt:
  "node_mse dm st item acc =
     bindR (bindR (dict_get dm (fst item)) (\<lambda>original_magnitude.
            bindR (py_index (fst st) (int (snd st))) (\<lambda>coefficient.
            torch_mean (map (\<lambda>x. (coefficient * (x - original_magnitude))\<^sup>2) (snd item)))))
       (\<lambda>v. Inr (AList.update (fst item) v acc))"
  by (cases item) (simp add: node_mse_def bindR_assoc)

lemma torch_mean_Inr_iff:
  "torch_mean xs = Inr v \<longleftrightarrow> xs \<noteq> [] \<and> v = sum_list xs / real (length xs)"
  by (auto simp: torch_mean_def)

lemma mses_decompose:
  assumes "estimate_downstream_node_mses self D es um dm t s = (Inr mses, s')"
  shows "\<exists>sm lp.
           sample_downstream_feature_magnitudes self D es um t (num_samples self) s = (Inr sm, s')
         \<and> D \<noteq> []
         \<and> model_profile self (layer_idx (hd D)) = Inr lp
         \<and> fst ` set mses = fst ` set sm
         \<and> distinct (map fst mses)
         \<and> (\<forall>node v. map_of mses node = Some v \<longrightarrow>
               (\<exists>xs m mx. (node, xs) \<in> set sm \<and> map_of dm node = Some m
                   \<and> lp (feature_idx (fst (last sm))) = Inr mx \<and> mx \<noteq> 0 \<and> xs \<noteq> []
                   \<and> v = sum_list (map (\<lambda>x. (1 / mx * (x - m))\<^sup>2) xs) / real (length xs)))"
proof -
  from assms obtain sm first lp st where
    sm: "sample_downstream_feature_magnitudes self D es um t (num_samples self) s = (Inr sm, s')"
    and first: "next_iter D = Inr first"
    and lp: "model_profile self (layer_idx first) = Inr lp"
    and st: "norm_coefficients_loop lp D (map fst sm) = Inr st"
    and f: "foldE (node_mse dm st) sm [] = Inr mses"
    by (auto simp: estimate_downstream_node_mses_def bindS_Inr_iff liftS_Inr_iff bindR_Inr_iff)
  from first have D: "D \<noteq> []" and hd: "hd D = first"
    by (auto simp: next_iter_Inr_iff)
  obtain cs i where st_eq: "st = (cs, i)" by (cases st)
  let ?g = "\<lambda>item. bindR (dict_get dm (fst item)) (\<lambda>original_magnitude.
            bindR (py_index cs (int i)) (\<lambda>coefficient.
            torch_mean (map (\<lambda>x. (coefficient * (x - original_magnitude))\<^sup>2) (snd item))))"
  have f': "foldE (\<lambda>x acc. bindR (?g x) (\<lambda>v. Inr (AList.update (fst x) v acc))) sm [] = Inr mses"
    using f by (simp add: node_mse_alt [abs_def] st_eq)
  note L = foldE_update_lookup [OF f']
  have keys: "fst ` set mses = fst ` set sm" using L by simp
  have dist: "distinct (map fst mses)" using L by simp
  have vals: "\<exists>xs m mx. (node, xs) \<in> set sm \<and> map_of dm node = Some m
                   \<and> lp (feature_idx (fst (last sm))) = Inr mx \<and> mx \<noteq> 0 \<and> xs \<noteq> []
                   \<and> v = sum_list (map (\<lambda>x. (1 / mx * (x - m))\<^sup>2) xs) / real (length xs)"
    if "map_of mses node = Some v" for node v
  proof -
    from L have "\<forall>y v. map_of mses y = Some v \<longrightarrow>
             (\<exists>x\<in>set sm. fst x = y \<and> ?g x = Inr v)
           \<or> (y \<notin> fst ` set sm \<and> map_of [] y = Some v)"
      by (elim conjE)
    from this [rule_format, OF that]
    obtain item where item: "item \<in> set sm" "fst item = node" "?g item = Inr v"
      by auto
    then have ne: "map fst sm \<noteq> []" by auto
    from norm_coefficients_loop_last [OF st [unfolded st_eq] ne] obtain mx where
      i: "i < length cs" and mx: "lp (feature_idx (last (map fst sm))) = Inr mx" "mx \<noteq> 0"
      and c: "cs ! i = 1 / mx" by blast
    from ne have last: "last (map fst sm) = fst (last sm)" by (simp add: last_map)
    from item(3) obtain m where m: "map_of dm (fst item) = Some m"
      and v: "torch_mean (map (\<lambda>x. (1 / mx * (x - m))\<^sup>2) (snd item)) = Inr v"
      by (auto simp: bindR_Inr_iff dict_get_Inr_iff py_index_nat [OF i] c)
    from v have "snd item \<noteq> []"
      and "v = sum_list (map (\<lambda>x. (1 / mx * (x - m))\<^sup>2) (snd item)) / real (length (snd item))"
      by (auto simp: torch_mean_Inr_iff)
    moreover have "(node, snd item) \<in> set sm" using item by (cases item) auto
    ultimately show ?thesis using m mx item(2) last by auto
  qed
  show ?thesis
    using sm D lp keys dist vals unfolding hd by blast
qed

lemma bindR_Inr: "bindR (Inr x) f = f x"
  by (simp add: bindR_def)

lemma py_max_default_Nil: "py_max_default [] d = d"
  by (simp add: py_max_default_def)

lemma fold_max_eq: "fold max ys (x :: real) = Max (set (x # ys))"
proof (induction ys arbitrary: x)
  case Nil
  then show ?case by simp
next
  case (Cons y ys)
  have "fold max (y # ys) x = Max (set (max y x # ys))" by (simp add: Cons.IH)
  also have "\<dots> = Max (insert y (insert x (set ys)))"
    by (cases "ys = []") (auto simp: max.commute max.assoc max.left_commute)
  finally show ?case by (simp add: insert_commute)
qed

lemma py_max_default_Max: "xs \<noteq> [] \<Longrightarrow> py_max_default xs d = Max (set xs)"
  by (cases xs) (simp_all add: py_max_default_def fold_max_eq)

lemma py_max_default_ge: "x \<in> set xs \<Longrightarrow> x \<le> py_max_default xs d"
  by (cases "xs = []") (auto simp: py_max_default_Max)

lemma py_max_default_mem: "xs \<noteq> [] \<Longrightarrow> py_max_default xs d \<in> set xs"
  using Max_in [of "set xs"] by (simp add: py_max_default_Max)

lemma mapE_dict_get:
  "mapE (dict_get d) ks = Inr vs \<Longrightarrow> vs = map (\<lambda>k. the (map_of d k)) ks \<and> set ks \<subseteq> fst ` set d"
proof (induction ks arbitrary: vs)
  case Nil
  then show ?case by simp
next
  case (Cons k ks)
  from Cons.prems obtain v vs' where v: "map_of d k = Some v" and r: "mapE (dict_get d) ks = Inr vs'"
    and vs: "vs = v # vs'"
    by (auto simp: bindR_Inr_iff dict_get_Inr_iff)
  from v have "k \<in> fst ` set d" by (force dest: map_of_SomeD)
  then show ?case using Cons.IH [OF r] v vs by simp
qed

text \<open>The three loops of \<open>edge_importance_of\<close>.\<close>

lemma edge_mse_increases_lookup:
  assumes "edge_mse_increases abl base = Inr incs"
  shows "fst ` set incs = fst ` set abl \<and> distinct (map fst incs)
       \<and> (\<forall>e inc. map_of incs e = Some inc \<longrightarrow>
             (\<exists>mse b. (e, mse) \<in> set abl \<and> map_of base (downstream e) = Some b
                  \<and> inc = mse - b))"
proof -
  let ?g = "\<lambda>item. bindR (dict_get base (downstream (fst item)))
                      (\<lambda>baseline_mse. Inr (snd item - baseline_mse :: real))"
  let ?xs = "sort_key (\<lambda>item. edge_key (fst item)) abl"
  have "foldE (\<lambda>x acc. bindR (?g x) (\<lambda>v. Inr (AList.update (fst x) v acc))) ?xs [] = Inr incs"
    using assms by (simp add: edge_mse_increases_def bindR_assoc bindR_Inr case_prod_unfold)
  note L = foldE_update_lookup [OF this]
  have "\<exists>mse b. (e, mse) \<in> set abl \<and> map_of base (downstream e) = Some b \<and> inc = mse - b"
    if "map_of incs e = Some inc" for e inc
  proof -
    from L have "\<forall>y v. map_of incs y = Some v \<longrightarrow>
             (\<exists>x\<in>set ?xs. fst x = y \<and> ?g x = Inr v)
           \<or> (y \<notin> fst ` set ?xs \<and> map_of [] y = Some v)"
      by (elim conjE)
    from this [rule_format, OF that] obtain item where
      item: "item \<in> set abl" "fst item = e" "?g item = Inr inc" by auto
    from item(1,2) have "(e, snd item) \<in> set abl" by (cases item) auto
    moreover from item(2,3) obtain b where "map_of base (downstream e) = Some b"
      "inc = snd item - b"
      by (auto simp: bindR_Inr_iff dict_get_Inr_iff)
    ultimately show ?thesis by blast
  qed
  then show ?thesis using L by simp
qed

lemma node_max_mse_increases_lookup:
  assumes "node_max_mse_increases D incs = Inr maxs"
  shows "fst ` set maxs = set D
       \<and> (\<forall>d M. map_of maxs d = Some M \<longrightarrow>
             M = py_max_default
                   (map (\<lambda>e. the (map_of incs e))
                      (py_set (filter (\<lambda>edge. downstream edge = d) (map fst incs)))) 0)"
proof -
  let ?keys = "\<lambda>d. py_set (filter (\<lambda>edge. downstream edge = d) (map fst incs))"
  let ?g = "\<lambda>d. bindR (mapE (dict_get incs) (?keys d))
                   (\<lambda>mse_increases. Inr (py_max_default mse_increases 0))"
  have "foldE (\<lambda>x acc. bindR (?g x) (\<lambda>v. Inr (AList.update x v acc))) D [] = Inr maxs"
    using assms by (simp add: node_max_mse_increases_def bindR_assoc bindR_Inr)
  note L = foldE_update_lookup [OF this]
  have "M = py_max_default (map (\<lambda>e. the (map_of incs e)) (?keys d)) 0"
    if "map_of maxs d = Some M" for d M
  proof -
    from L have "\<forall>y v. map_of maxs y = Some v \<longrightarrow>
             (\<exists>x\<in>set D. x = y \<and> ?g x = Inr v) \<or> (y \<notin> (\<lambda>x. x) ` set D \<and> map_of [] y = Some v)"
      by (elim conjE)
    from this [rule_format, OF that] have "?g d = Inr M" by auto
    then show ?thesis
      by (auto simp: bindR_Inr_iff dest: mapE_dict_get)
  qed
  then show ?thesis using L by simp
qed

lemma normalize_edge_increases_lookup:
  assumes "normalize_edge_increases incs maxs = Inr ei"
  shows "fst ` set ei = fst ` set incs \<and> distinct (map fst ei)
       \<and> (\<forall>x\<in>set incs. \<exists>M. map_of maxs (downstream (fst x)) = Some M)
       \<and> (\<forall>e v. map_of ei e = Some v \<longrightarrow>
             (\<exists>inc M. (e, inc) \<in> set incs \<and> map_of maxs (downstream e) = Some M
                  \<and> v = max inc 0 / max M (1 / 1000000)))"
proof -
  let ?g = "\<lambda>item. bindR (dict_get maxs (downstream (fst item)))
                      (\<lambda>max_mse_increase.
                         Inr (max (snd item) 0 / max max_mse_increase (1 / 1000000 :: real)))"
  have "foldE (\<lambda>x acc. bindR (?g x) (\<lambda>v. Inr (AList.update (fst x) v acc))) incs [] = Inr ei"
    using assms by (simp add: normalize_edge_increases_def bindR_assoc bindR_Inr case_prod_unfold)
  note L = foldE_update_lookup [OF this]
  have "\<exists>inc M. (e, inc) \<in> set incs \<and> map_of maxs (downstream e) = Some M
                  \<and> v = max inc 0 / max M (1 / 1000000)"
    if "map_of ei e = Some v" for e v
  proof -
    from L have "\<forall>y v. map_of ei y = Some v \<longrightarrow>
             (\<exists>x\<in>set incs. fst x = y \<and> ?g x = Inr v)
           \<or> (y \<notin> fst ` set incs \<and> map_of [] y = Some v)"
      by (elim conjE)
    from this [rule_format, OF that] obtain item where
      item: "item \<in> set incs" "fst item = e" "?g item = Inr v" by auto
    from item(1,2) have "(e, snd item) \<in> set incs" by (cases item) auto
    moreover from item(2,3) obtain M where "map_of maxs (downstream e) = Some M"
      "v = max (snd item) 0 / max M (1 / 1000000)"
      by (auto simp: bindR_Inr_iff dict_get_Inr_iff)
    ultimately show ?thesis by blast
  qed
  moreover have "\<forall>x\<in>set incs. \<exists>M. map_of maxs (downstream (fst x)) = Some M"
  proof
    fix x assume "x \<in> set incs"
    with L obtain v where "?g x = Inr v" by blast
    then show "\<exists>M. map_of maxs (downstream (fst x)) = Some M"
      by (auto simp: bindR_Inr_iff dict_get_Inr_iff)
  qed
  ultimately show ?thesis using L by simp
qed

lemma foldS_update_lookup:
  assumes "foldS (\<lambda>x acc. bindS (m x)
                    (\<lambda>r. liftS (bindR (g x r) (\<lambda>v. Inr (AList.update (k x) v acc)))))
             xs acc s = (Inr acc', s')"
  shows "(\<forall>y v. map_of acc' y = Some v \<longrightarrow>
            (\<exists>x\<in>set xs. \<exists>s1 s2 r. k x = y \<and> m x s1 = (Inr r, s2) \<and> g x r = Inr v)
          \<or> (y \<notin> k ` set xs \<and> map_of acc y = Some v))
       \<and> fst ` set acc' = k ` set xs \<union> fst ` set acc
       \<and> (distinct (map fst acc) \<longrightarrow> distinct (map fst acc'))"
  using assms
proof (induction xs arbitrary: acc s)
  case Nil
  then show ?case by simp
next
  case (Cons x xs)
  let ?f = "\<lambda>x acc. bindS (m x)
                    (\<lambda>r. liftS (bindR (g x r) (\<lambda>v. Inr (AList.update (k x) v acc))))"
  from Cons.prems obtain r s1 v where m: "m x s = (Inr r, s1)" and v: "g x r = Inr v"
    and rest: "foldS ?f xs (AList.update (k x) v acc) s1 = (Inr acc', s')"
    by (auto simp: bindS_Inr_iff liftS_Inr_iff bindR_Inr_iff)
  note IH = Cons.IH [OF rest]
  show ?case
  proof (intro conjI allI impI)
    fix y w assume "map_of acc' y = Some w"
    with IH have "(\<exists>x\<in>set xs. \<exists>s1 s2 r. k x = y \<and> m x s1 = (Inr r, s2) \<and> g x r = Inr w)
        \<or> (y \<notin> k ` set xs \<and> map_of (AList.update (k x) v acc) y = Some w)"
      by blast
    then show "(\<exists>x\<in>set (x # xs). \<exists>s1 s2 r. k x = y \<and> m x s1 = (Inr r, s2) \<and> g x r = Inr w)
        \<or> (y \<notin> k ` set (x # xs) \<and> map_of acc y = Some w)"
    proof
      assume "\<exists>x\<in>set xs. \<exists>s1 s2 r. k x = y \<and> m x s1 = (Inr r, s2) \<and> g x r = Inr w"
      then show ?thesis by auto
    next
      assume a: "y \<notin> k ` set xs \<and> map_of (AList.update (k x) v acc) y = Some w"
      show ?thesis
      proof (cases "y = k x")
        case True
        with a have "w = v" by (simp add: update_conv')
        with True m v show ?thesis by auto
      next
        case False
        with a show ?thesis by (auto simp: update_conv')
      qed
    qed
  next
    show "fst ` set acc' = k ` set (x # xs) \<union> fst ` set acc"
      using IH by (auto simp: dom_update)
  next
    assume "distinct (map fst acc)"
    then show "distinct (map fst acc')" using IH by (simp add: distinct_update)
  qed
qed

lemma edge_to_circuit_variant_props:
  "fst ` set (edge_to_circuit_variant D es) = set es"
  "distinct (map fst (edge_to_circuit_variant D es))"
  "(e, cv) \<in> set (edge_to_circuit_variant D es) \<Longrightarrow> cv = Circuit (set D) (removeAll e es)"
proof -
  show "fst ` set (edge_to_circuit_variant D es) = set es"
    by (simp add: edge_to_circuit_variant_def keys_fold_update_key)
  show d: "distinct (map fst (edge_to_circuit_variant D es))"
    by (simp add: edge_to_circuit_variant_def distinct_fold_update_key)
  assume "(e, cv) \<in> set (edge_to_circuit_variant D es)"
  with d have "map_of (edge_to_circuit_variant D es) e = Some cv" by simp
  then show "cv = Circuit (set D) (removeAll e es)"
    by (simp add: edge_to_circuit_variant_def map_of_fold_update_key split: if_splits)
qed

lemma edge_ablation_lookup:
  assumes "estimate_edge_ablation_effects self D es um dm t s = (Inr abl, s')"
  shows "fst ` set abl = set es \<and> distinct (map fst abl)
       \<and> (\<forall>e mse. map_of abl e = Some mse \<longrightarrow>
             (\<exists>s1 s2 errs.
                 estimate_downstream_node_mses self D (removeAll e es) um dm t s1 = (Inr errs, s2)
               \<and> map_of errs (downstream e) = Some mse))"
proof -
  let ?m = "\<lambda>x. estimate_downstream_node_mses self D (edges (snd x)) um dm t"
  let ?g = "\<lambda>x r. dict_get r (downstream (fst x))"
  let ?xs = "edge_to_circuit_variant D es"
  have "foldS (\<lambda>x acc. bindS (?m x)
                    (\<lambda>r. liftS (bindR (?g x r) (\<lambda>v. Inr (AList.update (fst x) v acc)))))
             ?xs [] s = (Inr abl, s')"
    using assms by (simp add: estimate_edge_ablation_effects_def case_prod_unfold)
  note L = foldS_update_lookup [OF this]
  have "\<exists>s1 s2 errs.
          estimate_downstream_node_mses self D (removeAll e es) um dm t s1 = (Inr errs, s2)
        \<and> map_of errs (downstream e) = Some mse"
    if "map_of abl e = Some mse" for e mse
  proof -
    from L have "\<forall>y v. map_of abl y = Some v \<longrightarrow>
            (\<exists>x\<in>set ?xs. \<exists>s1 s2 r. fst x = y \<and> ?m x s1 = (Inr r, s2) \<and> ?g x r = Inr v)
          \<or> (y \<notin> fst ` set ?xs \<and> map_of [] y = Some v)"
      by (elim conjE)
    from this [rule_format, OF that] obtain x s1 s2 r where
      x: "x \<in> set ?xs" "fst x = e" "?m x s1 = (Inr r, s2)" "?g x r = Inr mse" by auto
    from x(1,2) have "(e, snd x) \<in> set ?xs" by (cases x) auto
    then have "snd x = Circuit (set D) (removeAll e es)"
      by (rule edge_to_circuit_variant_props(3))
    with x show ?thesis by (auto simp: dict_get_Inr_iff)
  qed
  then show ?thesis using L by (simp add: edge_to_circuit_variant_props)
qed

lemma edge_importance_of_props:
  assumes "edge_importance_of D base abl = Inr ei"
  shows "fst ` set ei = fst ` set abl"
    and "distinct (map fst ei)"
    and "set D \<subseteq> fst ` set base"
    and "map_of ei e = Some v \<Longrightarrow> 0 \<le> v \<and> v \<le> 1"
    and "distinct (map fst abl) \<Longrightarrow> (e, mse) \<in> set abl \<Longrightarrow>
         map_of base (downstream e) = Some b \<Longrightarrow> 1 / 1000000 \<le> mse - b \<Longrightarrow>
         \<exists>e'. downstream e' = downstream e \<and> map_of ei e' = Some 1"
proof -
  from assms obtain incs maxs printed where
    incs: "edge_mse_increases abl base = Inr incs"
    and maxs: "node_max_mse_increases D incs = Inr maxs"
    and pr: "mapE (dict_get base) (sorted_nodes D) = Inr printed"
    and ei: "normalize_edge_increases incs maxs = Inr ei"
    by (auto simp: edge_importance_of_def bindR_Inr_iff)
  note I = edge_mse_increases_lookup [OF incs]
  note M = node_max_mse_increases_lookup [OF maxs]
  note N = normalize_edge_increases_lookup [OF ei]
  from I have dI: "distinct (map fst incs)" by simp
  show "fst ` set ei = fst ` set abl" using I N by simp
  show "distinct (map fst ei)" using N by simp
  show "set D \<subseteq> fst ` set base"
    using mapE_dict_get [OF pr] by (simp add: set_sorted_nodes)
  have maxval: "M' = py_max_default
                   (map (\<lambda>e. the (map_of incs e))
                      (py_set (filter (\<lambda>edge. downstream edge = d) (map fst incs)))) 0"
    if "map_of maxs d = Some M'" for d M'
    using M that by blast
  have le: "inc \<le> M'" if "(e, inc) \<in> set incs" "map_of maxs (downstream e) = Some M'"
    for e inc M'
  proof -
    from that(1) dI have m: "map_of incs e = Some inc" by simp
    from that(1) have "e \<in> set (py_set (filter (\<lambda>edge. downstream edge = downstream e)
                                      (map fst incs)))"
      by (force simp: set_py_set)
    then have "inc \<in> set (map (\<lambda>e. the (map_of incs e))
                      (py_set (filter (\<lambda>edge. downstream edge = downstream e) (map fst incs))))"
      using m by force
    then show ?thesis
      unfolding maxval [OF that(2)] by (rule py_max_default_ge)
  qed
  {
    assume "map_of ei e = Some v"
    with N obtain inc M' where i: "(e, inc) \<in> set incs"
      and m: "map_of maxs (downstream e) = Some M'"
      and v: "v = max inc 0 / max M' (1 / 1000000)" by blast
    from le [OF i m] have "max inc 0 \<le> max M' (1 / 1000000)" by auto
    moreover have "0 < max M' (1 / 1000000)" by auto
    ultimately show "0 \<le> v \<and> v \<le> 1" unfolding v by simp
  }
  {
    assume dA: "distinct (map fst abl)" and e: "(e, mse) \<in> set abl"
      and b: "map_of base (downstream e) = Some b" and big: "1 / 1000000 \<le> mse - b"
    let ?d = "downstream e"
    let ?keys = "py_set (filter (\<lambda>edge. downstream edge = ?d) (map fst incs))"
    let ?vals = "map (\<lambda>e. the (map_of incs e)) ?keys"
    from e I have "e \<in> fst ` set incs" by force
    then obtain inc where inc: "(e, inc) \<in> set incs" by auto
    with dI have "map_of incs e = Some inc" by simp
    with I obtain mse' b' where "(e, mse') \<in> set abl" "map_of base ?d = Some b'"
      "inc = mse' - b'" by blast
    with dA e b have inc_eq: "inc = mse - b"
      by (metis map_of_is_SomeI option.inject)
    from N inc obtain M' where m: "map_of maxs ?d = Some M'" by force
    have M': "M' = py_max_default ?vals 0" by (rule maxval [OF m])
    from inc have "e \<in> set ?keys" by (force simp: set_py_set)
    then have ne: "?vals \<noteq> []" by auto
    from py_max_default_mem [OF ne, of 0] obtain e' where e': "e' \<in> set ?keys"
      and Me: "the (map_of incs e') = M'" unfolding M' by auto
    from e' have d': "downstream e' = ?d" and k': "e' \<in> fst ` set incs"
      by (auto simp: set_py_set)
    from k' obtain inc' where "(e', inc') \<in> set incs" by auto
    with dI have mi': "map_of incs e' = Some inc'" by simp
    with Me have inc': "inc' = M'" by simp
    from le [OF inc m] inc_eq big have Mbig: "1 / 1000000 \<le> M'" by simp
    from k' N have "e' \<in> fst ` set ei" by simp
    then obtain v' where "(e', v') \<in> set ei" by auto
    with N have mv: "map_of ei e' = Some v'" by simp
    with N obtain inc2 M2 where "(e', inc2) \<in> set incs" "map_of maxs (downstream e') = Some M2"
      "v' = max inc2 0 / max M2 (1 / 1000000)" by blast
    with dI mi' m d' inc' have "v' = max M' 0 / max M' (1 / 1000000)"
      by (metis map_of_is_SomeI option.inject)
    with Mbig have "v' = 1" by (simp add: max_def)
    with mv d' show "\<exists>e'. downstream e' = downstream e \<and> map_of ei e' = Some 1" by auto
  }
qed

lemma dd_get_Nil: "dd_get [] k = []"
  by (simp add: dd_get_def)

lemma lookup2_Nil: "lookup2 [] k1 k2 = None"
  by (simp add: lookup2_def dd_get_def)

lemma wf2_Nil: "wf2 []"
  by (simp add: wf2_def)

lemma dd_get_mem: "distinct (map fst d) \<Longrightarrow> (k, v) \<in> set d \<Longrightarrow> dd_get d k = v"
  by (simp add: dd_get_def)

lemma wf2_inner: "wf2 d \<Longrightarrow> distinct (map fst (dd_get d k))"
proof -
  assume w: "wf2 d"
  show ?thesis
  proof (cases "map_of d k")
    case None
    then show ?thesis by (simp add: dd_get_def)
  next
    case (Some v)
    then have "(k, v) \<in> set d" by (rule map_of_SomeD)
    with w have "distinct (map fst v)" by (auto simp: wf2_def list_all_iff)
    with Some show ?thesis by (simp add: dd_get_def)
  qed
qed

lemma wf2_update: "wf2 d \<Longrightarrow> distinct (map fst v) \<Longrightarrow> wf2 (AList.update k v d)"
proof -
  assume w: "wf2 d" and v: "distinct (map fst v)"
  have "set (AList.update k v d) \<subseteq> insert (k, v) (set d)"
    by (induction d) auto
  with w v show ?thesis
    by (auto simp: wf2_def list_all_iff distinct_update)
qed

lemma lookup2_iff:
  "wf2 d \<Longrightarrow> lookup2 d k1 k2 = Some v \<longleftrightarrow> (\<exists>inner. (k1, inner) \<in> set d \<and> (k2, v) \<in> set inner)"
proof -
  assume w: "wf2 d"
  show ?thesis
  proof
    assume l: "lookup2 d k1 k2 = Some v"
    then have m: "(k2, v) \<in> set (dd_get d k1)" by (auto simp: lookup2_def dest: map_of_SomeD)
    then obtain inner where "map_of d k1 = Some inner" "dd_get d k1 = inner"
      by (cases "map_of d k1") (auto simp: dd_get_def)
    with m show "\<exists>inner. (k1, inner) \<in> set d \<and> (k2, v) \<in> set inner"
      by (auto dest: map_of_SomeD)
  next
    assume "\<exists>inner. (k1, inner) \<in> set d \<and> (k2, v) \<in> set inner"
    then obtain inner where i: "(k1, inner) \<in> set d" "(k2, v) \<in> set inner" by blast
    from w i(1) have "dd_get d k1 = inner" by (simp add: wf2_def dd_get_mem)
    moreover from w have "distinct (map fst (dd_get d k1))" by (rule wf2_inner)
    ultimately show "lookup2 d k1 k2 = Some v" using i(2) by (simp add: lookup2_def)
  qed
qed

lemma set_items2:
  "set (items2 d) = {(k1, k2, v). \<exists>inner. (k1, inner) \<in> set d \<and> (k2, v) \<in> set inner}"
  by (auto simp: items2_def)

lemma set_items2_wf: "wf2 d \<Longrightarrow> (k1, k2, v) \<in> set (items2 d) \<longleftrightarrow> lookup2 d k1 k2 = Some v"
  by (simp add: set_items2 lookup2_iff)

lemma lookup2_set_item2:
  "lookup2 (set_item2 d k1 k2 v) k1' k2' =
     (if k1' = k1 \<and> k2' = k2 then Some v else lookup2 d k1' k2')"
  by (simp add: lookup2_def set_item2_def dd_get_update update_conv')

lemma wf2_set_item2: "wf2 d \<Longrightarrow> wf2 (set_item2 d k1 k2 v)"
  unfolding set_item2_def by (rule wf2_update) (simp_all add: distinct_update wf2_inner)

lemma dd_get_lookup2: "dd_get (dd_get d k1) k2 = (case lookup2 d k1 k2 of None \<Rightarrow> [] | Some l \<Rightarrow> l)"
  by (simp add: lookup2_def dd_get_def [of "dd_get d k1"])

lemma lookup2_append_token_mse:
  "lookup2 (append_token_mse tam d u x) d' u' =
     (if d' = d \<and> u' = u then Some (dd_get (dd_get tam d) u @ [x]) else lookup2 tam d' u')"
  by (simp add: lookup2_def append_token_mse_def Let_def dd_get_update update_conv')

lemma wf2_append_token_mse: "wf2 tam \<Longrightarrow> wf2 (append_token_mse tam d u x)"
  unfolding append_token_mse_def Let_def
  by (rule wf2_update) (simp_all add: distinct_update wf2_inner)

lemma dd_get_dd_touch: "dd_get (dd_touch d k) k' = dd_get d k'"
  by (auto simp: dd_get_def dd_touch_def split: option.splits if_splits)

lemma lookup2_dd_touch: "lookup2 (dd_touch d k) k1 k2 = lookup2 d k1 k2"
  by (simp add: lookup2_def dd_get_dd_touch)

lemma wf2_dd_touch: "wf2 d \<Longrightarrow> wf2 (dd_touch d k)"
  by (auto simp: wf2_def dd_touch_def map_of_eq_None_iff split: option.splits)

text \<open>A loop nested in a loop over the items of a nested dictionary is one loop over all items.\<close>

lemma foldE_nested:
  "foldE (\<lambda>item acc. foldE (\<lambda>inner acc. f (fst item, fst inner, snd inner) acc) (snd item) acc) d acc
     = foldE f (items2 d) acc"
proof (induction d arbitrary: acc)
  case Nil
  then show ?case by (simp add: items2_def)
next
  case (Cons item d)
  have "foldE (\<lambda>inner acc. f (fst item, fst inner, snd inner) acc) xs acc =
        foldE f (map (\<lambda>inner. (fst item, fst inner, snd inner)) xs) acc" for xs acc
    by (induction xs arbitrary: acc) (auto simp: bindR_def split: sum.splits)
  then show ?case
    using Cons.IH by (simp add: items2_def foldE_append bindR_def split: sum.splits)
qed

text \<open>A loop that stores one computed value per item in a nested dictionary.\<close>

lemma foldE_set_item2_lookup:
  assumes "foldE (\<lambda>x acc. bindR (g x) (\<lambda>v. Inr (set_item2 acc (k1 x) (k2 x) v))) xs acc = Inr acc'"
  shows "(\<forall>x\<in>set xs. \<exists>v. g x = Inr v)
       \<and> (\<forall>d u v. lookup2 acc' d u = Some v \<longrightarrow>
             (\<exists>x\<in>set xs. k1 x = d \<and> k2 x = u \<and> g x = Inr v)
           \<or> ((d, u) \<notin> (\<lambda>x. (k1 x, k2 x)) ` set xs \<and> lookup2 acc d u = Some v))
       \<and> (\<forall>x\<in>set xs. lookup2 acc' (k1 x) (k2 x) \<noteq> None)
       \<and> (wf2 acc \<longrightarrow> wf2 acc')"
  using assms
proof (induction xs arbitrary: acc)
  case Nil
  then show ?case by simp
next
  case (Cons x xs)
  let ?f = "\<lambda>x acc. bindR (g x) (\<lambda>v. Inr (set_item2 acc (k1 x) (k2 x) v))"
  from Cons.prems obtain v where v: "g x = Inr v"
    and r: "foldE ?f xs (set_item2 acc (k1 x) (k2 x) v) = Inr acc'"
    by (auto simp: bindR_Inr_iff)
  note IH = Cons.IH [OF r]
  show ?case
  proof (intro conjI allI impI ballI)
    fix y assume "y \<in> set (x # xs)"
    then show "\<exists>v. g y = Inr v" using IH v by auto
  next
    fix d u w assume "lookup2 acc' d u = Some w"
    with IH have "(\<exists>x\<in>set xs. k1 x = d \<and> k2 x = u \<and> g x = Inr w)
        \<or> ((d, u) \<notin> (\<lambda>x. (k1 x, k2 x)) ` set xs
            \<and> lookup2 (set_item2 acc (k1 x) (k2 x) v) d u = Some w)"
      by blast
    then show "(\<exists>x\<in>set (x # xs). k1 x = d \<and> k2 x = u \<and> g x = Inr w)
        \<or> ((d, u) \<notin> (\<lambda>x. (k1 x, k2 x)) ` set (x # xs) \<and> lookup2 acc d u = Some w)"
      using v by (auto simp: lookup2_set_item2 split: if_splits)
  next
    fix y assume y: "y \<in> set (x # xs)"
    show "lookup2 acc' (k1 y) (k2 y) \<noteq> None"
    proof (cases "y \<in> set xs")
      case True
      with IH show ?thesis by blast
    next
      case False
      with y have yx: "y = x" by simp
      show ?thesis
      proof (cases "(k1 x, k2 x) \<in> (\<lambda>x. (k1 x, k2 x)) ` set xs")
        case True
        then obtain z where "z \<in> set xs" "k1 z = k1 x" "k2 z = k2 x" by auto
        with IH have "lookup2 acc' (k1 z) (k2 z) \<noteq> None" by blast
        then show ?thesis using \<open>k1 z = k1 x\<close> \<open>k2 z = k2 x\<close> yx by simp
      next
        case False
        have keep: "(d, u) \<notin> (\<lambda>x. (k1 x, k2 x)) ` set xs \<Longrightarrow>
                    lookup2 acc' d u = lookup2 a d u"
          if "foldE ?f xs a = Inr acc'" for a d u
          using that
        proof (induction xs arbitrary: a)
          case Nil
          then show ?case by simp
        next
          case (Cons z zs)
          from Cons.prems(2) obtain vz where
            "foldE ?f zs (set_item2 a (k1 z) (k2 z) vz) = Inr acc'"
            by (auto simp: bindR_Inr_iff)
          from Cons.IH [OF _ this] Cons.prems(1) show ?case
            by (auto simp: lookup2_set_item2)
        qed
        from keep [OF r False] show ?thesis
          by (simp add: yx lookup2_set_item2)
      qed
    qed
  next
    assume "wf2 acc"
    then show "wf2 acc'" using IH by (simp add: wf2_set_item2)
  qed
qed

lemma py_mean_Inr_iff:
  "py_mean xs = Inr v \<longleftrightarrow> xs \<noteq> [] \<and> v = sum_list xs / real (length xs)"
  by (auto simp: py_mean_def)

lemma foldE_map: "foldE f (map h xs) acc = foldE (\<lambda>x. f (h x)) xs acc"
  by (induction xs arbitrary: acc) (auto simp: bindR_def split: sum.splits)

lemma wf2_lookup2_unique:
  "wf2 d \<Longrightarrow> (k1, k2, v) \<in> set (items2 d) \<Longrightarrow> (k1, k2, w) \<in> set (items2 d) \<Longrightarrow> v = w"
  by (simp add: set_items2_wf)

lemma average_token_mses_lookup:
  assumes "average_token_mses tam = Inr avg" and "wf2 tam"
  shows "wf2 avg"
    and "lookup2 avg d u = Some a \<longleftrightarrow> (\<exists>mses. lookup2 tam d u = Some mses \<and> py_mean mses = Inr a)"
proof -
  let ?g = "\<lambda>x :: int \<times> int \<times> real list. py_mean (snd (snd x))"
  let ?f = "\<lambda>x acc. bindR (?g x) (\<lambda>v. Inr (set_item2 acc (fst x) (fst (snd x)) v))"
  have "foldE ?f (items2 tam) [] = average_token_mses tam"
    unfolding foldE_nested [symmetric]
    by (simp add: average_token_mses_def case_prod_unfold)
  with assms(1) have "foldE ?f (items2 tam) [] = Inr avg"
    by simp
  note L = foldE_set_item2_lookup [OF this]
  from L show "wf2 avg" by (simp add: wf2_Nil)
  show "lookup2 avg d u = Some a \<longleftrightarrow> (\<exists>mses. lookup2 tam d u = Some mses \<and> py_mean mses = Inr a)"
  proof
    assume "lookup2 avg d u = Some a"
    with L have "\<exists>x\<in>set (items2 tam). fst x = d \<and> fst (snd x) = u \<and> ?g x = Inr a"
      by (auto simp: lookup2_Nil)
    then obtain mses where "(d, u, mses) \<in> set (items2 tam)" "py_mean mses = Inr a"
      by force
    with assms(2) show "\<exists>mses. lookup2 tam d u = Some mses \<and> py_mean mses = Inr a"
      by (auto simp: set_items2_wf)
  next
    assume "\<exists>mses. lookup2 tam d u = Some mses \<and> py_mean mses = Inr a"
    then obtain mses where m: "lookup2 tam d u = Some mses" "py_mean mses = Inr a" by blast
    with assms(2) have x: "(d, u, mses) \<in> set (items2 tam)" by (simp add: set_items2_wf)
    with L have "lookup2 avg d u \<noteq> None" by force
    then obtain a' where a': "lookup2 avg d u = Some a'" by auto
    with L have "\<exists>x\<in>set (items2 tam). fst x = d \<and> fst (snd x) = u \<and> ?g x = Inr a'"
      by (auto simp: lookup2_Nil)
    then obtain mses' where m': "(d, u, mses') \<in> set (items2 tam)" "py_mean mses' = Inr a'"
      by force
    from wf2_lookup2_unique [OF assms(2) m'(1) x] have "mses' = mses" .
    with m'(2) m(2) have "a' = a" by simp
    with a' show "lookup2 avg d u = Some a" by simp
  qed
qed

lemma token_baseline_mses_lookup:
  assumes "token_baseline_mses idxs base = Inr tb"
  shows "fst ` set tb = set idxs"
    and "map_of tb d = Some b \<Longrightarrow> py_mean (baseline_node_mses base d) = Inr b"
proof -
  let ?g = "\<lambda>d. py_mean (baseline_node_mses base d)"
  have "foldE (\<lambda>x acc. bindR (?g x) (\<lambda>v. Inr (AList.update x v acc))) idxs [] = Inr tb"
    using assms by (simp add: token_baseline_mses_def)
  note L = foldE_update_lookup [OF this]
  from L show "fst ` set tb = set idxs" by simp
  assume "map_of tb d = Some b"
  moreover from L have "\<forall>y v. map_of tb y = Some v \<longrightarrow>
             (\<exists>x\<in>set idxs. x = y \<and> ?g x = Inr v) \<or> (y \<notin> (\<lambda>x. x) ` set idxs \<and> map_of [] y = Some v)"
    by (elim conjE)
  ultimately show "py_mean (baseline_node_mses base d) = Inr b" by auto
qed

lemma set_items2_sorted: "set (items2 (sorted_items2 d)) = set (items2 d)"
  by (simp add: items2_def sorted_items2_def image_image o_def)

lemma token_mse_increases_lookup:
  assumes "token_mse_increases avg tb = Inr incs" and "wf2 avg"
  shows "wf2 incs"
    and "lookup2 incs d u = Some inc \<longleftrightarrow>
           (\<exists>a b. lookup2 avg d u = Some a \<and> map_of tb d = Some b \<and> inc = a - b)"
proof -
  let ?g = "\<lambda>x :: int \<times> int \<times> real.
              bindR (dict_get tb (fst x)) (\<lambda>baseline_mse. Inr (snd (snd x) - baseline_mse))"
  let ?f = "\<lambda>x acc. bindR (?g x) (\<lambda>v. Inr (set_item2 acc (fst x) (fst (snd x)) v))"
  have "foldE ?f (items2 (sorted_items2 avg)) [] = token_mse_increases avg tb"
    unfolding foldE_nested [symmetric]
    by (simp add: token_mse_increases_def sorted_items2_def foldE_map case_prod_unfold
        bindR_assoc bindR_Inr)
  with assms(1) have "foldE ?f (items2 (sorted_items2 avg)) [] = Inr incs"
    by simp
  note L = foldE_set_item2_lookup [OF this, unfolded set_items2_sorted]
  from L show "wf2 incs" by (simp add: wf2_Nil)
  have val: "bindR (dict_get tb d) (\<lambda>baseline_mse. Inr (a - baseline_mse)) = Inr inc
               \<longleftrightarrow> (\<exists>b. map_of tb d = Some b \<and> inc = a - b)" for d a inc
    by (auto simp: bindR_Inr_iff dict_get_Inr_iff)
  show "lookup2 incs d u = Some inc \<longleftrightarrow>
           (\<exists>a b. lookup2 avg d u = Some a \<and> map_of tb d = Some b \<and> inc = a - b)"
  proof
    assume "lookup2 incs d u = Some inc"
    with L have "\<exists>x\<in>set (items2 avg). fst x = d \<and> fst (snd x) = u \<and> ?g x = Inr inc"
      by (auto simp: lookup2_Nil)
    then obtain a where a: "(d, u, a) \<in> set (items2 avg)"
      "bindR (dict_get tb d) (\<lambda>baseline_mse. Inr (a - baseline_mse)) = Inr inc"
      by force
    from a(1) assms(2) have "lookup2 avg d u = Some a" by (simp add: set_items2_wf)
    with a(2) show "\<exists>a b. lookup2 avg d u = Some a \<and> map_of tb d = Some b \<and> inc = a - b"
      unfolding val by blast
  next
    assume "\<exists>a b. lookup2 avg d u = Some a \<and> map_of tb d = Some b \<and> inc = a - b"
    then obtain a b where m: "lookup2 avg d u = Some a" "map_of tb d = Some b" "inc = a - b"
      by blast
    with assms(2) have x: "(d, u, a) \<in> set (items2 avg)" by (simp add: set_items2_wf)
    with L have "lookup2 incs d u \<noteq> None" by force
    then obtain inc' where i': "lookup2 incs d u = Some inc'" by auto
    with L have "\<exists>x\<in>set (items2 avg). fst x = d \<and> fst (snd x) = u \<and> ?g x = Inr inc'"
      by (auto simp: lookup2_Nil)
    then obtain a' where a': "(d, u, a') \<in> set (items2 avg)"
      "bindR (dict_get tb d) (\<lambda>baseline_mse. Inr (a' - baseline_mse)) = Inr inc'"
      by force
    from wf2_lookup2_unique [OF assms(2) a'(1) x] have "a' = a" .
    with a'(2) m have "inc' = inc" unfolding val by simp
    with i' show "lookup2 incs d u = Some inc" by simp
  qed
qed

lemma token_max_fold:
  "fold (\<lambda>d_token_idx (incs, max_mse_increases).
             (dd_touch incs d_token_idx,
              AList.update d_token_idx (py_max_default (map snd (dd_get incs d_token_idx)) 0)
                max_mse_increases))
       idxs (incs0, maxs0) = (incs', maxs') \<Longrightarrow>
   (\<forall>k. dd_get incs' k = dd_get incs0 k) \<and> (wf2 incs0 \<longrightarrow> wf2 incs')
   \<and> (\<forall>d. map_of maxs' d =
          (if d \<in> set idxs then Some (py_max_default (map snd (dd_get incs0 d)) 0)
           else map_of maxs0 d))"
proof (induction idxs arbitrary: incs0 maxs0)
  case Nil
  then show ?case by simp
next
  case (Cons i idxs)
  from Cons.IH [OF Cons.prems [simplified]]
  show ?case
    by (auto simp: dd_get_dd_touch wf2_dd_touch update_conv')
qed

lemma token_max_mse_increases_lookup:
  assumes "token_max_mse_increases idxs incs = (incs', maxs)"
  shows "dd_get incs' k = dd_get incs k"
    and "wf2 incs \<Longrightarrow> wf2 incs'"
    and "map_of maxs d =
          (if d \<in> set idxs then Some (py_max_default (map snd (dd_get incs d)) 0) else None)"
  using token_max_fold [OF assms [unfolded token_max_mse_increases_def]] by auto

lemma normalize_token_increases_lookup:
  assumes "normalize_token_increases l incs maxs = Inr ti"
  shows "distinct (map fst ti)"
    and "fst ` set ti = (\<lambda>x. EdgeGroup l (fst (snd x)) (fst x)) ` set (items2 incs)"
    and "map_of ti g = Some v \<Longrightarrow>
         \<exists>d u inc M. g = EdgeGroup l u d \<and> (d, u, inc) \<in> set (items2 incs)
            \<and> map_of maxs d = Some M \<and> v = max inc 0 / max M (1 / 1000000)"
proof -
  let ?g = "\<lambda>x :: int \<times> int \<times> real.
              bindR (dict_get maxs (fst x))
                (\<lambda>max_mse_increase.
                   Inr (max (snd (snd x)) 0 / max max_mse_increase (1 / 1000000 :: real)))"
  let ?k = "\<lambda>x :: int \<times> int \<times> real. EdgeGroup l (fst (snd x)) (fst x)"
  let ?f = "\<lambda>x acc. bindR (?g x) (\<lambda>v. Inr (AList.update (?k x) v acc))"
  have "foldE ?f (items2 incs) [] = normalize_token_increases l incs maxs"
    unfolding foldE_nested [symmetric]
    by (simp add: normalize_token_increases_def case_prod_unfold bindR_assoc bindR_Inr)
  with assms(1) have "foldE ?f (items2 incs) [] = Inr ti"
    by simp
  note L = foldE_update_lookup [OF this]
  from L show "distinct (map fst ti)" by simp
  from L show "fst ` set ti = ?k ` set (items2 incs)" by simp
  assume g: "map_of ti g = Some v"
  from L have "\<forall>y v. map_of ti y = Some v \<longrightarrow>
             (\<exists>x\<in>set (items2 incs). ?k x = y \<and> ?g x = Inr v)
           \<or> (y \<notin> ?k ` set (items2 incs) \<and> map_of [] y = Some v)"
    by (elim conjE)
  from this [rule_format, OF g]
  have "\<exists>x\<in>set (items2 incs). ?k x = g \<and> ?g x = Inr v" by simp
  then obtain x where x: "x \<in> set (items2 incs)" "?k x = g" "?g x = Inr v" by blast
  obtain d u inc where xe: "x = (d, u, inc)" by (cases x) auto
  from x show "\<exists>d u inc M. g = EdgeGroup l u d \<and> (d, u, inc) \<in> set (items2 incs)
            \<and> map_of maxs d = Some M \<and> v = max inc 0 / max M (1 / 1000000)"
    unfolding xe by (auto simp: bindR_Inr_iff dict_get_Inr_iff)
qed

lemma set_inner_values:
  "wf2 incs \<Longrightarrow> set (map snd (dd_get incs d)) = {inc. \<exists>u. lookup2 incs d u = Some inc}"
proof -
  assume "wf2 incs"
  then have "distinct (map fst (dd_get incs d))" by (rule wf2_inner)
  then have "(u, inc) \<in> set (dd_get incs d) \<longleftrightarrow> lookup2 incs d u = Some inc" for u inc
    by (simp add: lookup2_def)
  then show ?thesis by force
qed

lemma token_importance_of_props:
  assumes "token_importance_of l idxs tb avg = Inr ti" and "wf2 avg"
  shows "distinct (map fst ti)"
    and "fst ` set ti = {EdgeGroup l u d | u d. lookup2 avg d u \<noteq> None}"
    and "map_of ti g = Some v \<Longrightarrow> 0 \<le> v \<and> v \<le> 1"
    and "map_of ti g = Some v \<Longrightarrow>
         \<exists>d u a b. g = EdgeGroup l u d \<and> lookup2 avg d u = Some a \<and> map_of tb d = Some b
            \<and> d \<in> set idxs
            \<and> v = max (a - b) 0
                    / max (Max {a' - b | a'. \<exists>u'. lookup2 avg d u' = Some a'}) (1 / 1000000)"
proof -
  from assms(1) obtain incs where
    incs: "token_mse_increases avg tb = Inr incs"
    and rest: "(case token_max_mse_increases idxs incs of
         (incs', max_mse_increases) \<Rightarrow>
           bindR (mapE (dict_get tb) idxs) (\<lambda>printed.
             normalize_token_increases l incs' max_mse_increases)) = Inr ti"
    by (auto simp: token_importance_of_def bindR_Inr_iff)
  obtain incs' maxs where mx: "token_max_mse_increases idxs incs = (incs', maxs)"
    by (cases "token_max_mse_increases idxs incs")
  from rest have ti: "normalize_token_increases l incs' maxs = Inr ti"
    by (auto simp: mx bindR_Inr_iff)
  note I = token_mse_increases_lookup [OF incs assms(2)]
  note X = token_max_mse_increases_lookup [OF mx]
  note N = normalize_token_increases_lookup [OF ti]
  from I(1) X(2) have w': "wf2 incs'" by simp
  have l': "lookup2 incs' d u = lookup2 incs d u" for d u
    by (simp add: lookup2_def X(1))
  have items: "(d, u, inc) \<in> set (items2 incs') \<longleftrightarrow> lookup2 incs d u = Some inc" for d u inc
    using w' by (simp add: set_items2_wf l')
  show "distinct (map fst ti)" by (rule N(1))
  have some: "lookup2 incs d u \<noteq> None \<longleftrightarrow> lookup2 avg d u \<noteq> None" for d u
  proof
    assume "lookup2 incs d u \<noteq> None"
    then show "lookup2 avg d u \<noteq> None" using I(2) by fastforce
  next
    assume "lookup2 avg d u \<noteq> None"
    then obtain a where a: "lookup2 avg d u = Some a" by auto
    let ?g = "\<lambda>x :: int \<times> int \<times> real.
              bindR (dict_get tb (fst x)) (\<lambda>baseline_mse. Inr (snd (snd x) - baseline_mse))"
    let ?f = "\<lambda>x acc. bindR (?g x) (\<lambda>v. Inr (set_item2 acc (fst x) (fst (snd x)) v))"
    have "foldE ?f (items2 (sorted_items2 avg)) [] = token_mse_increases avg tb"
      unfolding foldE_nested [symmetric]
      by (simp add: token_mse_increases_def sorted_items2_def foldE_map case_prod_unfold
          bindR_assoc bindR_Inr)
    with incs have "foldE ?f (items2 (sorted_items2 avg)) [] = Inr incs" by simp
    note L = foldE_set_item2_lookup [OF this, unfolded set_items2_sorted]
    from a assms(2) have "(d, u, a) \<in> set (items2 avg)" by (simp add: set_items2_wf)
    with L show "lookup2 incs d u \<noteq> None" by force
  qed
  show "fst ` set ti = {EdgeGroup l u d | u d. lookup2 avg d u \<noteq> None}"
  proof -
    have "fst ` set ti = {EdgeGroup l u d | u d. lookup2 incs d u \<noteq> None}"
      unfolding N(2)
    proof (intro set_eqI iffI)
      fix g assume "g \<in> (\<lambda>x. EdgeGroup l (fst (snd x)) (fst x)) ` set (items2 incs')"
      then obtain d u inc where "(d, u, inc) \<in> set (items2 incs')" "g = EdgeGroup l u d"
        by force
      then show "g \<in> {EdgeGroup l u d | u d. lookup2 incs d u \<noteq> None}"
        by (auto simp: items)
    next
      fix g assume "g \<in> {EdgeGroup l u d | u d. lookup2 incs d u \<noteq> None}"
      then obtain d u inc where "g = EdgeGroup l u d" "lookup2 incs d u = Some inc" by auto
      then have "(d, u, inc) \<in> set (items2 incs')" by (simp add: items)
      then show "g \<in> (\<lambda>x. EdgeGroup l (fst (snd x)) (fst x)) ` set (items2 incs')"
        using \<open>g = EdgeGroup l u d\<close> by force
    qed
    also have "\<dots> = {EdgeGroup l u d | u d. lookup2 avg d u \<noteq> None}"
      unfolding some ..
    finally show ?thesis .
  qed
  have core: "\<exists>d u inc. g = EdgeGroup l u d \<and> lookup2 incs d u = Some inc \<and> d \<in> set idxs
                \<and> inc \<le> Max {inc'. \<exists>u'. lookup2 incs d u' = Some inc'}
                \<and> v = max inc 0 / max (Max {inc'. \<exists>u'. lookup2 incs d u' = Some inc'})
                                     (1 / 1000000)"
    if "map_of ti g = Some v" for g v
  proof -
    from N(3) [OF that] obtain d u inc M where g: "g = EdgeGroup l u d"
      and it: "(d, u, inc) \<in> set (items2 incs')" and M: "map_of maxs d = Some M"
      and v: "v = max inc 0 / max M (1 / 1000000)" by blast
    from it have li: "lookup2 incs d u = Some inc" by (simp add: items)
    from M X(3) [of d] have d: "d \<in> set idxs"
      and Me: "M = py_max_default (map snd (dd_get incs d)) 0"
      by (auto split: if_splits)
    have vals: "set (map snd (dd_get incs d)) = {inc'. \<exists>u'. lookup2 incs d u' = Some inc'}"
      by (rule set_inner_values [OF I(1)])
    from li vals have mem: "inc \<in> set (map snd (dd_get incs d))" by blast
    then have ne: "map snd (dd_get incs d) \<noteq> []" by auto
    from py_max_default_Max [OF ne, of 0] Me vals
    have MM: "M = Max {inc'. \<exists>u'. lookup2 incs d u' = Some inc'}" by simp
    from py_max_default_ge [OF mem, of 0] Me MM
    have "inc \<le> Max {inc'. \<exists>u'. lookup2 incs d u' = Some inc'}" by simp
    with g li d v MM show ?thesis by blast
  qed
  {
    assume "map_of ti g = Some v"
    from core [OF this] obtain d inc where
      le: "inc \<le> Max {inc'. \<exists>u'. lookup2 incs d u' = Some inc'}"
      and v: "v = max inc 0 / max (Max {inc'. \<exists>u'. lookup2 incs d u' = Some inc'})
                                     (1 / 1000000)" by blast
    let ?M = "Max {inc'. \<exists>u'. lookup2 incs d u' = Some inc'}"
    from le have "max inc 0 \<le> max ?M (1 / 1000000)" by auto
    moreover have "0 < max ?M (1 / 1000000)" by auto
    ultimately show "0 \<le> v \<and> v \<le> 1" unfolding v by simp
  }
  {
    assume "map_of ti g = Some v"
    from core [OF this] obtain d u inc where g: "g = EdgeGroup l u d"
      and li: "lookup2 incs d u = Some inc" and d: "d \<in> set idxs"
      and v: "v = max inc 0 / max (Max {inc'. \<exists>u'. lookup2 incs d u' = Some inc'})
                                     (1 / 1000000)" by blast
    from li I(2) obtain a b where a: "lookup2 avg d u = Some a" and b: "map_of tb d = Some b"
      and inc: "inc = a - b" by blast
    have "{inc'. \<exists>u'. lookup2 incs d u' = Some inc'} =
          {a' - b | a'. \<exists>u'. lookup2 avg d u' = Some a'}"
      using I(2) b by auto
    with g a b d v inc
    show "\<exists>d u a b. g = EdgeGroup l u d \<and> lookup2 avg d u = Some a \<and> map_of tb d = Some b
            \<and> d \<in> set idxs
            \<and> v = max (a - b) 0
                    / max (Max {a' - b | a'. \<exists>u'. lookup2 avg d u' = Some a'}) (1 / 1000000)"
      by auto
  }
qed

lemma cell_append_token_mse:
  "dd_get (dd_get (append_token_mse tam d0 u x) d) u' =
     dd_get (dd_get tam d) u' @ (if d = d0 \<and> u' = u then [x] else [])"
  by (simp add: dd_get_lookup2 lookup2_append_token_mse)

lemma append_nodes_fold:
  assumes "foldE (\<lambda>node tam. bindR (dict_get est node)
                     (\<lambda>mse. Inr (append_token_mse tam (token_idx node) u mse))) ns tam0
             = Inr tam1"
  shows "set ns \<subseteq> fst ` set est"
    and "wf2 tam0 \<Longrightarrow> wf2 tam1"
    and "dd_get (dd_get tam1 d) u' =
           dd_get (dd_get tam0 d) u' @
           (if u' = u then map (\<lambda>n. the (map_of est n)) (filter (\<lambda>n. token_idx n = d) ns)
            else [])"
    and "lookup2 tam1 d u' \<noteq> None \<longleftrightarrow>
           lookup2 tam0 d u' \<noteq> None \<or> (u' = u \<and> filter (\<lambda>n. token_idx n = d) ns \<noteq> [])"
  using assms
proof (induction ns arbitrary: tam0 d u')
  case Nil
  {
    case 1 then show ?case by simp
  next
    case 2 then show ?case by simp
  next
    case 3 then show ?case by simp
  next
    case 4 then show ?case by simp
  }
next
  case (Cons n ns)
  {
    case 1
    from 1 obtain mse where m: "map_of est n = Some mse"
      and r: "foldE (\<lambda>node tam. bindR (dict_get est node)
                     (\<lambda>mse. Inr (append_token_mse tam (token_idx node) u mse))) ns
                (append_token_mse tam0 (token_idx n) u mse) = Inr tam1"
      by (auto simp: bindR_Inr_iff dict_get_Inr_iff)
    from m have "n \<in> fst ` set est" by (force dest: map_of_SomeD)
    with Cons.IH(1) [OF r] show ?case by simp
  next
    case 2
    from 2(2) obtain mse where m: "map_of est n = Some mse"
      and r: "foldE (\<lambda>node tam. bindR (dict_get est node)
                     (\<lambda>mse. Inr (append_token_mse tam (token_idx node) u mse))) ns
                (append_token_mse tam0 (token_idx n) u mse) = Inr tam1"
      by (auto simp: bindR_Inr_iff dict_get_Inr_iff)
    from Cons.IH(2) [OF _ r] 2(1) show ?case by (simp add: wf2_append_token_mse)
  next
    case 3
    from 3 obtain mse where m: "map_of est n = Some mse"
      and r: "foldE (\<lambda>node tam. bindR (dict_get est node)
                     (\<lambda>mse. Inr (append_token_mse tam (token_idx node) u mse))) ns
                (append_token_mse tam0 (token_idx n) u mse) = Inr tam1"
      by (auto simp: bindR_Inr_iff dict_get_Inr_iff)
    from Cons.IH(3) [OF r, where d = d and u' = u'] m show ?case
      by (simp add: cell_append_token_mse)
  next
    case 4
    from 4 obtain mse where m: "map_of est n = Some mse"
      and r: "foldE (\<lambda>node tam. bindR (dict_get est node)
                     (\<lambda>mse. Inr (append_token_mse tam (token_idx node) u mse))) ns
                (append_token_mse tam0 (token_idx n) u mse) = Inr tam1"
      by (auto simp: bindR_Inr_iff dict_get_Inr_iff)
    from Cons.IH(4) [OF r, where d = d and u' = u'] show ?case
      by (auto simp: lookup2_append_token_mse)
  }
qed

lemma ablate_token_props:
  assumes "ablate_token self D all_edges um dm t u tam0 s = (Inr tam1, s1)"
  shows "\<exists>est. estimate_downstream_node_mses self D (patched_edges_of all_edges u) um dm t s
                 = (Inr est, s1)
           \<and> set (ablated_nodes all_edges u) \<subseteq> fst ` set est
           \<and> (\<forall>d. dd_get (dd_get tam1 d) u =
                   dd_get (dd_get tam0 d) u @
                   map (\<lambda>n. the (map_of est n))
                     (filter (\<lambda>n. token_idx n = d) (ablated_nodes all_edges u)))"
    and "wf2 tam0 \<Longrightarrow> wf2 tam1"
    and "u' \<noteq> u \<Longrightarrow> dd_get (dd_get tam1 d) u' = dd_get (dd_get tam0 d) u'"
    and "lookup2 tam1 d u' \<noteq> None \<longleftrightarrow>
           lookup2 tam0 d u' \<noteq> None
         \<or> (u' = u \<and> filter (\<lambda>n. token_idx n = d) (ablated_nodes all_edges u) \<noteq> [])"
proof -
  from assms obtain est where
    e: "estimate_downstream_node_mses self D (patched_edges_of all_edges u) um dm t s
          = (Inr est, s1)"
    and f: "foldE (\<lambda>node tam. bindR (dict_get est node)
                     (\<lambda>mse. Inr (append_token_mse tam (token_idx node) u mse)))
              (ablated_nodes all_edges u) tam0 = Inr tam1"
    by (auto simp: ablate_token_def bindS_Inr_iff liftS_Inr_iff)
  note A = append_nodes_fold [OF f]
  from e A(1) A(3) [of _ u]
  show "\<exists>est. estimate_downstream_node_mses self D (patched_edges_of all_edges u) um dm t s
                 = (Inr est, s1)
           \<and> set (ablated_nodes all_edges u) \<subseteq> fst ` set est
           \<and> (\<forall>d. dd_get (dd_get tam1 d) u =
                   dd_get (dd_get tam0 d) u @
                   map (\<lambda>n. the (map_of est n))
                     (filter (\<lambda>n. token_idx n = d) (ablated_nodes all_edges u)))"
    by auto
  show "wf2 tam0 \<Longrightarrow> wf2 tam1" by (rule A(2))
  show "u' \<noteq> u \<Longrightarrow> dd_get (dd_get tam1 d) u' = dd_get (dd_get tam0 d) u'"
    using A(3) [of d u'] by simp
  show "lookup2 tam1 d u' \<noteq> None \<longleftrightarrow>
           lookup2 tam0 d u' \<noteq> None
         \<or> (u' = u \<and> filter (\<lambda>n. token_idx n = d) (ablated_nodes all_edges u) \<noteq> [])"
    by (rule A(4))
qed

lemma ablate_tokens_fold:
  assumes "foldS (ablate_token self D all_edges um dm t) toks tam0 s = (Inr tam, s')"
    and "distinct toks"
  shows "wf2 tam0 \<Longrightarrow> wf2 tam"
    and "\<forall>u\<in>set toks. \<exists>est s1 s2.
           estimate_downstream_node_mses self D (patched_edges_of all_edges u) um dm t s1
             = (Inr est, s2)
         \<and> set (ablated_nodes all_edges u) \<subseteq> fst ` set est
         \<and> (\<forall>d. dd_get (dd_get tam d) u =
                 dd_get (dd_get tam0 d) u @
                 map (\<lambda>n. the (map_of est n))
                   (filter (\<lambda>n. token_idx n = d) (ablated_nodes all_edges u)))"
    and "u' \<notin> set toks \<Longrightarrow> dd_get (dd_get tam d) u' = dd_get (dd_get tam0 d) u'"
    and "lookup2 tam d u' \<noteq> None \<longleftrightarrow>
           lookup2 tam0 d u' \<noteq> None
         \<or> (u' \<in> set toks \<and> filter (\<lambda>n. token_idx n = d) (ablated_nodes all_edges u') \<noteq> [])"
  using assms
proof (induction toks arbitrary: tam0 s d u')
  case Nil
  {
    case 1 then show ?case by simp
  next
    case 2 then show ?case by simp
  next
    case 3 then show ?case by simp
  next
    case 4 then show ?case by simp
  }
next
  case (Cons u toks)
  {
    case 1
    from 1(2) obtain tam1 s1 where
      h: "ablate_token self D all_edges um dm t u tam0 s = (Inr tam1, s1)"
      and r: "foldS (ablate_token self D all_edges um dm t) toks tam1 s1 = (Inr tam, s')"
      by (auto simp: bindS_Inr_iff)
    from 1(3) have dt: "distinct toks" by simp
    from ablate_token_props(2) [OF h] 1(1) have "wf2 tam1" by simp
    with Cons.IH(1) [OF _ r dt] show ?case by simp
  next
    case 2
    from 2(1) obtain tam1 s1 where
      h: "ablate_token self D all_edges um dm t u tam0 s = (Inr tam1, s1)"
      and r: "foldS (ablate_token self D all_edges um dm t) toks tam1 s1 = (Inr tam, s')"
      by (auto simp: bindS_Inr_iff)
    from 2(2) have dt: "distinct toks" and un: "u \<notin> set toks" by simp_all
    note H = ablate_token_props [OF h]
    show ?case
    proof
      fix w assume w: "w \<in> set (u # toks)"
      show "\<exists>est s1 s2.
           estimate_downstream_node_mses self D (patched_edges_of all_edges w) um dm t s1
             = (Inr est, s2)
         \<and> set (ablated_nodes all_edges w) \<subseteq> fst ` set est
         \<and> (\<forall>d. dd_get (dd_get tam d) w =
                 dd_get (dd_get tam0 d) w @
                 map (\<lambda>n. the (map_of est n))
                   (filter (\<lambda>n. token_idx n = d) (ablated_nodes all_edges w)))"
      proof (cases "w = u")
        case True
        from H(1) obtain est where
          e: "estimate_downstream_node_mses self D (patched_edges_of all_edges u) um dm t s
                 = (Inr est, s1)"
          and k: "set (ablated_nodes all_edges u) \<subseteq> fst ` set est"
          and c: "\<forall>d. dd_get (dd_get tam1 d) u =
                   dd_get (dd_get tam0 d) u @
                   map (\<lambda>n. the (map_of est n))
                     (filter (\<lambda>n. token_idx n = d) (ablated_nodes all_edges u))"
          by blast
        from Cons.IH(3) [OF un r dt] have "dd_get (dd_get tam d) u = dd_get (dd_get tam1 d) u"
          for d by blast
        with c have "\<forall>d. dd_get (dd_get tam d) u =
                   dd_get (dd_get tam0 d) u @
                   map (\<lambda>n. the (map_of est n))
                     (filter (\<lambda>n. token_idx n = d) (ablated_nodes all_edges u))"
          by simp
        with e k show ?thesis unfolding True by blast
      next
        case False
        with w have wt: "w \<in> set toks" by simp
        from Cons.IH(2) [OF r dt, rule_format, OF wt] obtain est s1' s2' where
          e: "estimate_downstream_node_mses self D (patched_edges_of all_edges w) um dm t s1'
                 = (Inr est, s2')"
          and k: "set (ablated_nodes all_edges w) \<subseteq> fst ` set est"
          and c: "\<forall>d. dd_get (dd_get tam d) w =
                   dd_get (dd_get tam1 d) w @
                   map (\<lambda>n. the (map_of est n))
                     (filter (\<lambda>n. token_idx n = d) (ablated_nodes all_edges w))"
          by blast
        from H(3) [OF False] c have "\<forall>d. dd_get (dd_get tam d) w =
                   dd_get (dd_get tam0 d) w @
                   map (\<lambda>n. the (map_of est n))
                     (filter (\<lambda>n. token_idx n = d) (ablated_nodes all_edges w))"
          by simp
        with e k show ?thesis by blast
      qed
    qed
  next
    case 3
    from 3(2) obtain tam1 s1 where
      h: "ablate_token self D all_edges um dm t u tam0 s = (Inr tam1, s1)"
      and r: "foldS (ablate_token self D all_edges um dm t) toks tam1 s1 = (Inr tam, s')"
      by (auto simp: bindS_Inr_iff)
    from 3(3) have dt: "distinct toks" by simp
    from 3(1) have "u' \<noteq> u" "u' \<notin> set toks" by simp_all
    with Cons.IH(3) [OF _ r dt, where d = d and u' = u']
      ablate_token_props(3) [OF h, where d = d and u' = u'] show ?case by simp
  next
    case 4
    from 4(1) obtain tam1 s1 where
      h: "ablate_token self D all_edges um dm t u tam0 s = (Inr tam1, s1)"
      and r: "foldS (ablate_token self D all_edges um dm t) toks tam1 s1 = (Inr tam, s')"
      by (auto simp: bindS_Inr_iff)
    from 4(2) have dt: "distinct toks" by simp
    from Cons.IH(4) [OF r dt, where d = d and u' = u']
      ablate_token_props(4) [OF h, where d = d and u' = u'] show ?case by auto
  }
qed

lemma sample_keys:
  assumes "sample_downstream_feature_magnitudes self D es um t n s = (Inr sm, s')"
  shows "fst ` set sm \<subseteq> set D"
proof
  fix node assume "node \<in> fst ` set sm"
  then obtain xs where "(node, xs) \<in> set sm" by auto
  then obtain ys where m: "map_of sm node = Some ys"
    by (metis fst_conv image_eqI map_of_eq_None_iff not_Some_eq)
  from sample_decompose [OF assms] obtain batches where
    "foldE (assign_samples (dependencies_to_nodes (node_to_dependencies D es))) batches []
             = Inr sm" by blast
  from sample_lookup [OF this m] show "node \<in> set D" by blast
qed

lemma mses_keys:
  assumes "estimate_downstream_node_mses self D es um dm t s = (Inr mses, s')"
  shows "fst ` set mses \<subseteq> set D" and "distinct (map fst mses)" and "D \<noteq> []"
proof -
  from mses_decompose [OF assms] obtain sm where
    s: "sample_downstream_feature_magnitudes self D es um t (num_samples self) s = (Inr sm, s')"
    and k: "fst ` set mses = fst ` set sm" and d: "distinct (map fst mses)" and D: "D \<noteq> []"
    by blast
  from sample_keys [OF s] k show "fst ` set mses \<subseteq> set D" by simp
  show "distinct (map fst mses)" by (rule d)
  show "D \<noteq> []" by (rule D)
qed

lemma search_decompose:
  assumes "search self tokens U D t s = (Inr r, s')"
  shows "\<exists>um dm base s1 s2 s3.
           D \<noteq> []
         \<and> model self tokens (layer_idx (hd D) - 1) = Inr um
         \<and> estimate_downstream_node_means self D (find_all_edges U D) um t s = (Inr dm, s1)
         \<and> estimate_downstream_node_mses self D (find_all_edges U D) um dm t s1 = (Inr base, s2)
         \<and> compute_edge_importance self (find_all_edges U D) D base um dm t s2
             = (Inr (edge_importance r), s3)
         \<and> compute_token_importance self (find_all_edges U D) D base um dm t s3
             = (Inr (token_importance r), s')"
proof -
  from assms have D: "D \<noteq> []"
    by (auto simp: search_def liftS_def split: if_splits)
  then obtain first rest where Dc: "D = first # rest" by (cases D) auto
  from assms show ?thesis
    unfolding search_def Let_def Dc
    by (auto simp: bindS_Inr_iff liftS_Inr_iff next_iter_def)
qed

lemma compute_edge_importance_decompose:
  assumes "compute_edge_importance self all_edges D base um dm t s = (Inr ei, s')"
  shows "\<exists>abl. estimate_edge_ablation_effects self D all_edges um dm t s = (Inr abl, s')
             \<and> edge_importance_of D base abl = Inr ei"
  using assms by (auto simp: compute_edge_importance_def bindS_Inr_iff liftS_Inr_iff)

lemma compute_token_importance_decompose:
  assumes "compute_token_importance self all_edges D base um dm t s = (Inr ti, s')"
  shows "\<exists>tb tam.
           D \<noteq> []
         \<and> token_baseline_mses (sort (py_set (map token_idx D))) base = Inr tb
         \<and> foldS (ablate_token self D all_edges um dm t)
              (sort (py_set (map (\<lambda>edge. token_idx (upstream edge)) all_edges))) [] s
             = (Inr tam, s')
         \<and> (\<exists>avg. average_token_mses tam = Inr avg
               \<and> token_importance_of (layer_idx (hd D) - 1) (sort (py_set (map token_idx D)))
                    tb avg = Inr ti)"
proof -
  from assms have D: "D \<noteq> []"
    by (cases D) (auto simp: compute_token_importance_def bindS_def liftS_def next_iter_def)
  then obtain first rest where Dc: "D = first # rest" by (cases D) auto
  from assms show ?thesis
    unfolding compute_token_importance_def estimate_token_ablation_effects_def Let_def Dc
    by (auto simp: bindS_Inr_iff liftS_Inr_iff next_iter_def)
qed

lemma compute_edge_importance_props:
  assumes "compute_edge_importance self all_edges D base um dm t s = (Inr ei, s')"
  shows "fst ` set ei = set all_edges" and "distinct (map fst ei)"
    and "set D \<subseteq> fst ` set base"
    and "map_of ei e = Some v \<Longrightarrow> 0 \<le> v \<and> v \<le> 1"
proof -
  from compute_edge_importance_decompose [OF assms] obtain abl where
    a: "estimate_edge_ablation_effects self D all_edges um dm t s = (Inr abl, s')"
    and e: "edge_importance_of D base abl = Inr ei" by blast
  from edge_ablation_lookup [OF a] edge_importance_of_props(1) [OF e]
  show "fst ` set ei = set all_edges" by simp
  show "distinct (map fst ei)" by (rule edge_importance_of_props(2) [OF e])
  show "set D \<subseteq> fst ` set base" by (rule edge_importance_of_props(3) [OF e])
  show "map_of ei e = Some v \<Longrightarrow> 0 \<le> v \<and> v \<le> 1"
    by (rule edge_importance_of_props(4) [OF e])
qed

lemma ablation_tokens_distinct:
  "distinct (sort (py_set (map (\<lambda>edge. token_idx (upstream edge)) all_edges)))"
  by (simp add: distinct_py_set)

lemma compute_token_importance_props:
  assumes "compute_token_importance self all_edges D base um dm t s = (Inr ti, s')"
  shows "distinct (map fst ti)"
    and "map_of ti g = Some v \<Longrightarrow> 0 \<le> v \<and> v \<le> 1"
    and "g \<in> fst ` set ti \<Longrightarrow>
           upstream_layer_idx g = layer_idx (hd D) - 1
         \<and> (\<exists>e\<in>set all_edges. token_idx (upstream e) = upstream_token_idx g
                              \<and> token_idx (downstream e) = downstream_token_idx g)"
proof -
  let ?toks = "sort (py_set (map (\<lambda>edge. token_idx (upstream edge)) all_edges))"
  from compute_token_importance_decompose [OF assms] obtain tb tam avg where
    f: "foldS (ablate_token self D all_edges um dm t) ?toks [] s = (Inr tam, s')"
    and av: "average_token_mses tam = Inr avg"
    and ti: "token_importance_of (layer_idx (hd D) - 1) (sort (py_set (map token_idx D)))
                    tb avg = Inr ti"
    by blast
  from ablate_tokens_fold(1) [OF f ablation_tokens_distinct] have wt: "wf2 tam"
    by (simp add: wf2_Nil)
  note A = average_token_mses_lookup [OF av wt]
  note T = token_importance_of_props [OF ti A(1)]
  show "distinct (map fst ti)" by (rule T(1))
  show "map_of ti g = Some v \<Longrightarrow> 0 \<le> v \<and> v \<le> 1" by (rule T(3))
  assume "g \<in> fst ` set ti"
  with T(2) obtain u d where g: "g = EdgeGroup (layer_idx (hd D) - 1) u d"
    and l: "lookup2 avg d u \<noteq> None" by auto
  from l A(2) have "lookup2 tam d u \<noteq> None" by fastforce
  with ablate_tokens_fold(4) [OF f ablation_tokens_distinct, of d u]
  have "filter (\<lambda>n. token_idx n = d) (ablated_nodes all_edges u) \<noteq> []"
    by (simp add: lookup2_Nil)
  then obtain n where "n \<in> set (ablated_nodes all_edges u)" "token_idx n = d"
    by (auto simp: filter_empty_conv)
  then obtain e where "e \<in> set all_edges" "token_idx (upstream e) = u" "downstream e = n"
    by (auto simp: ablated_nodes_def set_py_set)
  with \<open>token_idx n = d\<close> g
  show "upstream_layer_idx g = layer_idx (hd D) - 1
         \<and> (\<exists>e\<in>set all_edges. token_idx (upstream e) = upstream_token_idx g
                              \<and> token_idx (downstream e) = downstream_token_idx g)"
    by auto
qed

lemma causal_edges_causal:
  "e \<in> causal_edges U D \<Longrightarrow> token_idx (upstream e) \<le> token_idx (downstream e)"
  by (auto simp: causal_edges_def)

lemma scenario_search_result:
  "search (scenario_search 1 2) [5, 6, 7] scenario_upstream scenario_downstream 2 () =
     (Inr \<lparr>edge_importance =
         [(Edge (Node 0 0 0) (Node 1 1 0), 2 / 5),
          (Edge (Node 0 0 0) (Node 1 2 1), 1 / 9),
          (Edge (Node 0 1 0) (Node 1 1 0), 1),
          (Edge (Node 0 1 0) (Node 1 2 1), 4 / 9),
          (Edge (Node 0 2 0) (Node 1 2 1), 1)],
         token_importance =
           [(EdgeGroup 0 0 1, 2 / 5), (EdgeGroup 0 1 1, 1),
            (EdgeGroup 0 0 2, 1 / 9), (EdgeGroup 0 1 2, 4 / 9),
            (EdgeGroup 0 2 2, 1)]\<rparr>, ())"
  by code_simp

lemma scenario_edge_importance:
  "compute_edge_importance (scenario_search 1 2)
     (find_all_edges scenario_upstream scenario_downstream) scenario_downstream
     [(Node 1 1 0, 9 / 16), (Node 1 2 1, 0)] () [(Node 1 1 0, 3 / 2), (Node 1 2 1, 0)] 2 ()
   = (Inr [(Edge (Node 0 0 0) (Node 1 1 0), 2 / 5),
          (Edge (Node 0 0 0) (Node 1 2 1), 1 / 9),
          (Edge (Node 0 1 0) (Node 1 1 0), 1),
          (Edge (Node 0 1 0) (Node 1 2 1), 4 / 9),
          (Edge (Node 0 2 0) (Node 1 2 1), 1)], ())"
  by code_simp

lemma scenario_edge_ablation:
  "estimate_edge_ablation_effects (scenario_search 1 2) scenario_downstream
     (find_all_edges scenario_upstream scenario_downstream) ()
     [(Node 1 1 0, 3 / 2), (Node 1 2 1, 0)] 2 ()
   = (Inr [(Edge (Node 0 0 0) (Node 1 1 0), 17 / 16),
       (Edge (Node 0 0 0) (Node 1 2 1), 1 / 8),
       (Edge (Node 0 1 0) (Node 1 1 0), 29 / 16),
       (Edge (Node 0 1 0) (Node 1 2 1), 1 / 2),
       (Edge (Node 0 2 0) (Node 1 2 1), 9 / 8)], ())"
  by code_simp

section \<open>Properties of the search\<close>

text \<open>
  C5. \<^verbatim>\<open>get_placeholders\<close> returns an \<open>edge_importance\<close> dictionary whose keys are exactly
  the causally valid edges of \<open>upstream_nodes \<times> downstream_nodes\<close>, each with value 1, and
  a \<open>token_importance\<close> dictionary whose keys are exactly the edge groups of those edges,
  each with value 0. Both are dictionaries: no key occurs twice.
\<close>

theorem get_placeholders_coverage:
  "map_of (edge_importance (get_placeholders U D)) e =
     (if e \<in> causal_edges (set U) (set D) then Some 1 else None)
   \<and> map_of (token_importance (get_placeholders U D)) g =
     (if g \<in> group_of ` causal_edges (set U) (set D) then Some 0 else None)
   \<and> distinct (map fst (edge_importance (get_placeholders U D)))
   \<and> distinct (map fst (token_importance (get_placeholders U D)))"
  by (simp add: get_placeholders_def map_of_const_map set_find_all_edges
      set_find_all_edge_groups distinct_find_all_edges distinct_find_all_edge_groups
      comp_def)

text \<open>
  C4, as amended. \<^verbatim>\<open>search\<close> on an empty set of downstream nodes fails with the assertion
  error whatever the collaborators are, and leaves the sampling state as it was: nothing
  has been sampled.
\<close>

theorem search_empty_downstream:
  "search self tokens upstream_nodes [] target_token_idx s = (Inl AssertionError, s)"
  by (simp add: search_def liftS_def)

text \<open>
  C4, the counterexample to the claim as stated. A downstream set with nodes at layers 1
  and 2 is not rejected: the search runs to the end and returns a result.
\<close>

theorem search_mixed_layers_counterexample:
  "layer_idx (Node 1 1 0) \<noteq> layer_idx (Node 2 2 1)
   \<and> search (scenario_search 1 2) [5, 6, 7] scenario_upstream [Node 1 1 0, Node 2 2 1] 2 () =
      (Inr \<lparr>edge_importance =
         [(Edge (Node 0 0 0) (Node 1 1 0), 2 / 5),
          (Edge (Node 0 0 0) (Node 2 2 1), 1 / 9),
          (Edge (Node 0 1 0) (Node 1 1 0), 1),
          (Edge (Node 0 1 0) (Node 2 2 1), 4 / 9),
          (Edge (Node 0 2 0) (Node 2 2 1), 1)],
         token_importance =
           [(EdgeGroup 0 0 1, 2 / 5), (EdgeGroup 0 1 1, 1),
            (EdgeGroup 0 0 2, 1 / 9), (EdgeGroup 0 1 2, 4 / 9),
            (EdgeGroup 0 2 2, 1)]\<rparr>, ())"
  by code_simp

text \<open>
  C8, as amended. \<^verbatim>\<open>estimate_downstream_node_means\<close> makes exactly one request to the
  ablator (none when there is no downstream node), for
  \<open>min (4 * num_samples) k_nearest\<close> samples when \<open>k_nearest\<close> is a non-zero integer and for
  \<open>min (4 * num_samples) 10\<^sup>1\<^sup>0\<close> samples when \<open>k_nearest\<close> is \<^verbatim>\<open>None\<close> or 0.
\<close>

theorem means_requested_samples:
  "map snd (snd (snd (estimate_downstream_node_means (with_request_log self) D es um t (s, reqs)))) =
     map snd reqs @
     (if D = [] then []
      else [case k_nearest self of
              None \<Rightarrow> min (4 * num_samples self) 10000000000
            | Some k \<Rightarrow> if k = 0 then min (4 * num_samples self) 10000000000
                        else min (4 * num_samples self) k])"
  by (simp add: means_request_log means_num_samples_cases)

text \<open>
  C8, the counterexample to the claim as stated. With an unbounded pool
  (\<open>k_nearest\<close> is \<^verbatim>\<open>None\<close>) and \<open>num_samples = 3 * 10\<^sup>9\<close> the request is for
  \<open>10\<^sup>1\<^sup>0\<close> samples, not for \<open>4 * num_samples\<close>.
\<close>

theorem means_requested_samples_counterexample:
  "k_nearest (scenario_search 1 3000000000) = None
   \<and> 4 * num_samples (scenario_search 1 3000000000) = 12000000000
   \<and> map snd (snd (snd (estimate_downstream_node_means
        (with_request_log (scenario_search 1 3000000000)) scenario_downstream [] () 2 ((), []))))
      = [10000000000]"
  by (simp add: means_request_log means_num_samples_cases scenario_search_def
      scenario_downstream_def)



text \<open>
  C1. The claim is that every downstream node's error is scaled by the coefficient of the
  node's own feature. The code reads \<^verbatim>\<open>norm_coefficients[i]\<close> with the \<open>i\<close> that the
  preceding loop left behind, so every node is scaled by the coefficient of the last
  node of \<^verbatim>\<open>sampled_feature_magnitudes\<close>. Two downstream nodes with the same samples
  \<open>[0, 3]\<close> and the same mean \<open>3 / 2\<close>, one of feature 0 (maximum 1) and one of feature 1
  (maximum 2): the specification's formula gives \<open>9 / 4\<close> and \<open>9 / 16\<close>; the code gives
  \<open>9 / 16\<close> for both when the node of feature 1 comes last, and \<open>9 / 4\<close> for both when the
  node of feature 0 comes last.
\<close>

theorem stale_coefficient_evaluation:
  "sample_downstream_feature_magnitudes (scenario_search 1 2) [Node 1 1 0, Node 1 1 1]
     (find_all_edges scenario_upstream [Node 1 1 0, Node 1 1 1]) () 2 2 ()
     = (Inr [(Node 1 1 0, [0, 3]), (Node 1 1 1, [0, 3])], ())
   \<and> estimate_downstream_node_mses (scenario_search 1 2) [Node 1 1 0, Node 1 1 1]
       (find_all_edges scenario_upstream [Node 1 1 0, Node 1 1 1]) ()
       [(Node 1 1 0, 3 / 2), (Node 1 1 1, 3 / 2)] 2 ()
     = (Inr [(Node 1 1 0, 9 / 16), (Node 1 1 1, 9 / 16)], ())
   \<and> estimate_downstream_node_mses (scenario_search 1 2) [Node 1 1 1, Node 1 1 0]
       (find_all_edges scenario_upstream [Node 1 1 1, Node 1 1 0]) ()
       [(Node 1 1 0, 3 / 2), (Node 1 1 1, 3 / 2)] 2 ()
     = (Inr [(Node 1 1 1, 9 / 4), (Node 1 1 0, 9 / 4)], ())
   \<and> spec_normalized_mse (\<lambda>f. if f = 0 then 1 else 2) (Node 1 1 0) [0, 3] (3 / 2) = 9 / 4
   \<and> spec_normalized_mse (\<lambda>f. if f = 0 then 1 else 2) (Node 1 1 1) [0, 3] (3 / 2) = 9 / 16"
  by code_simp



text \<open>
  C3, as amended. When \<^verbatim>\<open>compute_edge_importance\<close> returns, and some candidate edge into a
  downstream node has a raw increase (its error under ablation minus the node's baseline
  error) of at least \<open>10\<^sup>-\<^sup>6\<close>, the floor of the divisor, then some candidate edge into that
  node has importance exactly 1. The errors under ablation are the ones the call itself
  has estimated.
\<close>

theorem edge_maximality:
  assumes "compute_edge_importance self all_edges D base um dm t s = (Inr ei, s')"
  shows "\<exists>abl. estimate_edge_ablation_effects self D all_edges um dm t s = (Inr abl, s')
           \<and> (\<forall>e mse b. map_of abl e = Some mse \<and> map_of base (downstream e) = Some b
                    \<and> 1 / 1000000 \<le> mse - b \<longrightarrow>
                  (\<exists>e'\<in>set all_edges. downstream e' = downstream e \<and> map_of ei e' = Some 1))"
proof -
  from compute_edge_importance_decompose [OF assms] obtain abl where
    a: "estimate_edge_ablation_effects self D all_edges um dm t s = (Inr abl, s')"
    and e: "edge_importance_of D base abl = Inr ei" by blast
  note A = edge_ablation_lookup [OF a]
  from A have dA: "distinct (map fst abl)" by simp
  have keys: "fst ` set ei = set all_edges"
    using A edge_importance_of_props(1) [OF e] by simp
  have "\<exists>e'\<in>set all_edges. downstream e' = downstream e \<and> map_of ei e' = Some 1"
    if "map_of abl e = Some mse" "map_of base (downstream e) = Some b" "1 / 1000000 \<le> mse - b"
    for e mse b
  proof -
    from that(1) have "(e, mse) \<in> set abl" by (rule map_of_SomeD)
    from edge_importance_of_props(5) [OF e dA this that(2,3)] obtain e' where
      e': "downstream e' = downstream e" "map_of ei e' = Some 1" by blast
    from e'(2) have "e' \<in> fst ` set ei" by (force dest: map_of_SomeD)
    with keys e' show ?thesis by auto
  qed
  with a show ?thesis by blast
qed

text \<open>Witness for C3: in the scenario the edge from token 0 into the first downstream node
  has a raw increase of \<open>1 / 2\<close>, and the edge from token 1 has importance 1.\<close>

theorem edge_maximality_witness:
  "map_of [(Edge (Node 0 0 0) (Node 1 1 0), 17 / 16 :: real),
       (Edge (Node 0 0 0) (Node 1 2 1), 1 / 8),
       (Edge (Node 0 1 0) (Node 1 1 0), 29 / 16),
       (Edge (Node 0 1 0) (Node 1 2 1), 1 / 2),
       (Edge (Node 0 2 0) (Node 1 2 1), 9 / 8)] (Edge (Node 0 0 0) (Node 1 1 0)) = Some (17 / 16)
   \<and> map_of [(Node 1 1 0, 9 / 16 :: real), (Node 1 2 1, 0)] (Node 1 1 0) = Some (9 / 16)
   \<and> (1 / 1000000 :: real) \<le> 17 / 16 - 9 / 16
   \<and> (\<exists>e'\<in>set (find_all_edges scenario_upstream scenario_downstream).
         downstream e' = Node 1 1 0
       \<and> map_of [(Edge (Node 0 0 0) (Node 1 1 0), 2 / 5 :: real),
          (Edge (Node 0 0 0) (Node 1 2 1), 1 / 9),
          (Edge (Node 0 1 0) (Node 1 1 0), 1),
          (Edge (Node 0 1 0) (Node 1 2 1), 4 / 9),
          (Edge (Node 0 2 0) (Node 1 2 1), 1)] e' = Some 1)"
proof -
  from edge_maximality [OF scenario_edge_importance] scenario_edge_ablation
  have "\<forall>e mse b.
          map_of [(Edge (Node 0 0 0) (Node 1 1 0), 17 / 16 :: real),
            (Edge (Node 0 0 0) (Node 1 2 1), 1 / 8),
            (Edge (Node 0 1 0) (Node 1 1 0), 29 / 16),
            (Edge (Node 0 1 0) (Node 1 2 1), 1 / 2),
            (Edge (Node 0 2 0) (Node 1 2 1), 9 / 8)] e = Some mse
        \<and> map_of [(Node 1 1 0, 9 / 16 :: real), (Node 1 2 1, 0)] (downstream e) = Some b
        \<and> 1 / 1000000 \<le> mse - b \<longrightarrow>
          (\<exists>e'\<in>set (find_all_edges scenario_upstream scenario_downstream).
             downstream e' = downstream e
           \<and> map_of [(Edge (Node 0 0 0) (Node 1 1 0), 2 / 5 :: real),
                (Edge (Node 0 0 0) (Node 1 2 1), 1 / 9),
                (Edge (Node 0 1 0) (Node 1 1 0), 1),
                (Edge (Node 0 1 0) (Node 1 2 1), 4 / 9),
                (Edge (Node 0 2 0) (Node 1 2 1), 1)] e' = Some 1)"
    by simp
  from this [rule_format, of "Edge (Node 0 0 0) (Node 1 1 0)" "17 / 16" "9 / 16"]
  show ?thesis by simp
qed

text \<open>
  C3, the counterexample to the claim as stated. With magnitudes scaled by \<open>10\<^sup>-\<^sup>4\<close> every
  edge has a strictly positive raw increase, the largest into the first downstream node
  being \<open>20 / 1600000000\<close>, below the floor \<open>10\<^sup>-\<^sup>6\<close>: the divisor is the floor, and no edge
  of the result has importance 1.
\<close>

theorem edge_maximality_counterexample:
  "estimate_downstream_node_means (scenario_search (1 / 10000) 2) scenario_downstream
     (find_all_edges scenario_upstream scenario_downstream) () 2 ()
     = (Inr [(Node 1 1 0, 3 / 20000), (Node 1 2 1, 0)], ())
   \<and> estimate_downstream_node_mses (scenario_search (1 / 10000) 2) scenario_downstream
       (find_all_edges scenario_upstream scenario_downstream) ()
       [(Node 1 1 0, 3 / 20000), (Node 1 2 1, 0)] 2 ()
     = (Inr [(Node 1 1 0, 9 / 1600000000), (Node 1 2 1, 0)], ())
   \<and> estimate_edge_ablation_effects (scenario_search (1 / 10000) 2) scenario_downstream
       (find_all_edges scenario_upstream scenario_downstream) ()
       [(Node 1 1 0, 3 / 20000), (Node 1 2 1, 0)] 2 ()
     = (Inr [(Edge (Node 0 0 0) (Node 1 1 0), 17 / 1600000000),
             (Edge (Node 0 0 0) (Node 1 2 1), 1 / 800000000),
             (Edge (Node 0 1 0) (Node 1 1 0), 29 / 1600000000),
             (Edge (Node 0 1 0) (Node 1 2 1), 1 / 200000000),
             (Edge (Node 0 2 0) (Node 1 2 1), 9 / 800000000)], ())
   \<and> (0 :: real) < 29 / 1600000000 - 9 / 1600000000
   \<and> search (scenario_search (1 / 10000) 2) [5, 6, 7] scenario_upstream scenario_downstream 2 ()
     = (Inr \<lparr>edge_importance =
         [(Edge (Node 0 0 0) (Node 1 1 0), 1 / 200),
          (Edge (Node 0 0 0) (Node 1 2 1), 1 / 800),
          (Edge (Node 0 1 0) (Node 1 1 0), 1 / 80),
          (Edge (Node 0 1 0) (Node 1 2 1), 1 / 200),
          (Edge (Node 0 2 0) (Node 1 2 1), 9 / 800)],
         token_importance =
           [(EdgeGroup 0 0 1, 1 / 200), (EdgeGroup 0 1 1, 1 / 80),
            (EdgeGroup 0 0 2, 1 / 800), (EdgeGroup 0 1 2, 1 / 200),
            (EdgeGroup 0 2 2, 9 / 800)]\<rparr>, ())"
  by code_simp

text \<open>
  C6. Every edge that is a key of the \<open>edge_importance\<close> dictionary, and every edge group
  that is a key of the \<open>token_importance\<close> dictionary, in a result of \<^verbatim>\<open>get_placeholders\<close>
  or of \<^verbatim>\<open>search\<close>, has an upstream token index that is at most its downstream token
  index.
\<close>

theorem causality:
  "(\<forall>x\<in>set (edge_importance (get_placeholders U D)).
       token_idx (upstream (fst x)) \<le> token_idx (downstream (fst x)))
   \<and> (\<forall>x\<in>set (token_importance (get_placeholders U D)).
       upstream_token_idx (fst x) \<le> downstream_token_idx (fst x))
   \<and> (search self tokens U D t s = (Inr r, s') \<longrightarrow>
        (\<forall>x\<in>set (edge_importance r).
           token_idx (upstream (fst x)) \<le> token_idx (downstream (fst x)))
      \<and> (\<forall>x\<in>set (token_importance r).
           upstream_token_idx (fst x) \<le> downstream_token_idx (fst x)))"
proof (intro conjI impI ballI)
  fix x assume "x \<in> set (edge_importance (get_placeholders U D))"
  then have "fst x \<in> causal_edges (set U) (set D)"
    by (auto simp: get_placeholders_def set_find_all_edges [symmetric])
  then show "token_idx (upstream (fst x)) \<le> token_idx (downstream (fst x))"
    by (rule causal_edges_causal)
next
  fix x assume "x \<in> set (token_importance (get_placeholders U D))"
  then have "fst x \<in> group_of ` causal_edges (set U) (set D)"
    by (auto simp: get_placeholders_def set_find_all_edge_groups [symmetric])
  then show "upstream_token_idx (fst x) \<le> downstream_token_idx (fst x)"
    by (auto simp: group_of_def dest: causal_edges_causal)
next
  fix x assume a: "search self tokens U D t s = (Inr r, s')" and x: "x \<in> set (edge_importance r)"
  from search_decompose [OF a] obtain um dm base s2 s3 where
    e: "compute_edge_importance self (find_all_edges U D) D base um dm t s2
             = (Inr (edge_importance r), s3)" by blast
  from compute_edge_importance_props(1) [OF e] x
  have "fst x \<in> causal_edges (set U) (set D)"
    by (auto simp: set_find_all_edges)
  then show "token_idx (upstream (fst x)) \<le> token_idx (downstream (fst x))"
    by (rule causal_edges_causal)
next
  fix x assume a: "search self tokens U D t s = (Inr r, s')" and x: "x \<in> set (token_importance r)"
  from search_decompose [OF a] obtain um dm base s3 where
    k: "compute_token_importance self (find_all_edges U D) D base um dm t s3
             = (Inr (token_importance r), s')" by blast
  from x have "fst x \<in> fst ` set (token_importance r)" by simp
  from compute_token_importance_props(3) [OF k this] obtain e where
    "e \<in> set (find_all_edges U D)" "token_idx (upstream e) = upstream_token_idx (fst x)"
    "token_idx (downstream e) = downstream_token_idx (fst x)" by blast
  then show "upstream_token_idx (fst x) \<le> downstream_token_idx (fst x)"
    using causal_edges_causal [of e "set U" "set D"] by (simp add: set_find_all_edges)
qed

text \<open>Witness for C6: the placeholders and the search result of the scenario.\<close>

theorem causality_witness:
  "search (scenario_search 1 2) [5, 6, 7] scenario_upstream scenario_downstream 2 ()
     = (Inr \<lparr>edge_importance =
         [(Edge (Node 0 0 0) (Node 1 1 0), 2 / 5),
          (Edge (Node 0 0 0) (Node 1 2 1), 1 / 9),
          (Edge (Node 0 1 0) (Node 1 1 0), 1),
          (Edge (Node 0 1 0) (Node 1 2 1), 4 / 9),
          (Edge (Node 0 2 0) (Node 1 2 1), 1)],
         token_importance =
           [(EdgeGroup 0 0 1, 2 / 5), (EdgeGroup 0 1 1, 1),
            (EdgeGroup 0 0 2, 1 / 9), (EdgeGroup 0 1 2, 4 / 9),
            (EdgeGroup 0 2 2, 1)]\<rparr>, ())
   \<and> list_all (\<lambda>x. token_idx (upstream (fst x)) \<le> token_idx (downstream (fst x)))
        (edge_importance (get_placeholders scenario_upstream scenario_downstream))
   \<and> list_all (\<lambda>x. upstream_token_idx (fst x) \<le> downstream_token_idx (fst x))
        (token_importance (get_placeholders scenario_upstream scenario_downstream))
   \<and> list_all (\<lambda>x. token_idx (upstream (fst x)) \<le> token_idx (downstream (fst x)))
        [(Edge (Node 0 0 0) (Node 1 1 0), 2 / 5 :: real),
          (Edge (Node 0 0 0) (Node 1 2 1), 1 / 9),
          (Edge (Node 0 1 0) (Node 1 1 0), 1),
          (Edge (Node 0 1 0) (Node 1 2 1), 4 / 9),
          (Edge (Node 0 2 0) (Node 1 2 1), 1)]
   \<and> list_all (\<lambda>x. upstream_token_idx (fst x) \<le> downstream_token_idx (fst x))
        [(EdgeGroup 0 0 1, 2 / 5 :: real), (EdgeGroup 0 1 1, 1),
            (EdgeGroup 0 0 2, 1 / 9), (EdgeGroup 0 1 2, 4 / 9),
            (EdgeGroup 0 2 2, 1)]"
  using causality [of scenario_upstream scenario_downstream "scenario_search 1 2" "[5, 6, 7]"
      2 "()" _ "()"] scenario_search_result
  by (simp add: list_all_iff)

end
